theory Spec2Isabelle
  imports Complex_Main
begin

section \<open>Data model (types/puzzle.ts)\<close>

text \<open>
  A grid is a JavaScript \<open>number[][]\<close>: a list of rows, 0 for an empty cell. Cells are
  integers; array indices and sizes are natural numbers.
\<close>

type_synonym grid = "int list list"

datatype PuzzleVariant = CLASSIC | KILLER | X_SUDOKU | HYPER | MINI | MEGA

datatype Difficulty = BEGINNER | EASY | MEDIUM | HARD | EXPERT

datatype SolvingTechnique =
    NAKED_SINGLES | HIDDEN_SINGLES | NAKED_PAIRS | HIDDEN_PAIRS | POINTING_PAIRS
  | BOX_LINE_REDUCTION | X_WING | SWORDFISH | XY_WING | COLORING | FORCING_CHAINS

record Position =
  row :: nat
  col :: nat

datatype ConstraintType = cage | diagonal | extra_region

datatype ConstraintOperation = op_sum | op_product | op_difference

record Constraint =
  ctype :: ConstraintType
  positions :: "Position list"
  cvalue :: "int option"
  operation :: "ConstraintOperation option"

record PuzzleMetadata =
  estimatedSolveTime :: int
  techniques :: "SolvingTechnique list"
  rating :: real
  playCount :: nat
  averageSolveTime :: nat
  createdBy :: "string option"
  tags :: "string list option"

record PuzzleGenerationOptions =
  variant :: PuzzleVariant
  difficulty :: Difficulty
  size' :: nat
  seed :: "string option"
  constraints :: "Constraint list option"

text \<open>
  The \<open>Puzzle\<close> record. Its two grids are of type \<open>'g\<close>: grids as values (\<open>grid\<close>) for the
  generator, references to rows in a store where aliasing matters. \<open>createdAt\<close> is a date,
  kept as milliseconds.
\<close>

record 'g Puzzle =
  id' :: string
  variant :: PuzzleVariant
  difficulty :: Difficulty
  size' :: nat
  initialState :: 'g
  solution :: 'g
  constraints :: "Constraint list"
  metadata :: PuzzleMetadata
  createdAt :: int
  difficultyScore :: real

text \<open>
  What the source throws: the two errors of the generator, and JavaScript's own
  \<open>TypeError\<close>, raised by \<open>grid[r][c]\<close> when \<open>grid[r]\<close> is \<open>undefined\<close>, that is when \<open>r\<close>
  is not below \<open>grid.length\<close>. Two more values mark where the model stops: \<open>Unmodelled\<close>
  where the source would index with a non-integer or build an array with holes, and
  \<open>OutOfFuel\<close> for a recursion cut by the model's own bound (the theorems below show
  that the bound given by the model is never reached).
\<close>

datatype error = InvalidSize | GenerationFailed | TypeError | Unmodelled | OutOfFuel

text \<open>
  \<open>grid[r][c]\<close> for a row index \<open>r\<close> below \<open>grid.length\<close>: the number stored there, or
  \<open>None\<close> for JavaScript's \<open>undefined\<close> when the row is shorter than \<open>c + 1\<close>.
\<close>

definition cellAt :: "grid \<Rightarrow> nat \<Rightarrow> nat \<Rightarrow> int option" where
  "cellAt g r c = (if r < length g \<and> c < length (g ! r) then Some (g ! r ! c) else None)"

text \<open>\<open>grid[r][c] = v\<close> on a cell that exists.\<close>

definition setCell :: "grid \<Rightarrow> nat \<Rightarrow> nat \<Rightarrow> int \<Rightarrow> grid" where
  "setCell g r c v = g[r := (g ! r)[c := v]]"

text \<open>
  \<open>Math.sqrt(size)\<close> compared with its own floor: \<open>Some b\<close> when \<open>size = b * b\<close>, \<open>None\<close>
  when the square root is not an integer.
\<close>

definition sqrtInt :: "nat \<Rightarrow> nat option" where
  "sqrtInt n = List.find (\<lambda>b. b * b = n) [0..<Suc n]"

section \<open>Permutations of rows and columns (puzzle-generator.ts)\<close>

text \<open>
  \<open>invertPermutation\<close>: \<open>inv[perm[i]] = i\<close> for every index. \<open>None\<close> when an entry of
  \<open>perm\<close> is not an index of \<open>inv\<close> (the source would then grow the array, leaving
  holes).
\<close>

definition invertPermutation :: "nat list \<Rightarrow> nat list option" where
  "invertPermutation perm =
     (if \<forall>x \<in> set perm. x < length perm
      then Some (fold (\<lambda>i inv. inv[perm ! i := i]) [0..<length perm] (replicate (length perm) 0))
      else None)"

text \<open>
  \<open>applyPermutation\<close>: \<open>out[rowPerm[r]][colPerm[c]] = grid[r][c]\<close> for all \<open>r, c\<close> below
  \<open>grid.length\<close>, starting from a grid of zeros. The test \<open>out[rowPerm[r]] || ...\<close> of the
  source keeps the row that is already there. \<open>None\<close> when an index read from a
  permutation is missing or not below \<open>size\<close>, or a row of \<open>grid\<close> is shorter than
  \<open>size\<close>: the source then stores \<open>undefined\<close> or grows an array, and the result is
  no longer a \<open>size \<times> size\<close> grid of numbers.
\<close>

definition applyPermutation :: "grid \<Rightarrow> nat list \<Rightarrow> nat list \<Rightarrow> grid option" where
  "applyPermutation g rowPerm colPerm =
     (let sz = length g in
      if sz \<le> length rowPerm \<and> sz \<le> length colPerm
         \<and> (\<forall>x \<in> set (take sz rowPerm). x < sz)
         \<and> (\<forall>x \<in> set (take sz colPerm). x < sz)
         \<and> (\<forall>rw \<in> set g. sz \<le> length rw)
      then Some (fold (\<lambda>r out.
                   fold (\<lambda>c out. out[rowPerm ! r := (out ! (rowPerm ! r))[colPerm ! c := g ! r ! c]])
                     [0..<sz] out)
                 [0..<sz] (replicate sz (replicate sz 0)))
      else None)"

section \<open>Solver and validator (puzzle-solver.js)\<close>

text \<open>
  The loops of the source that look for a value in a sequence of cells and leave at the
  first hit: the cells are visited in order, a cell in a missing row raises, a cell
  beyond the end of its row reads \<open>undefined\<close> and is no hit.
\<close>

fun scanFor :: "grid \<Rightarrow> int \<Rightarrow> (nat \<times> nat) list \<Rightarrow> error + (nat \<times> nat) option" where
  "scanFor g v [] = Inr None"
| "scanFor g v ((r, c) # ps) =
     (if length g \<le> r then Inl TypeError
      else if cellAt g r c = Some v then Inr (Some (r, c))
      else scanFor g v ps)"

text \<open>
  The cells of the box of \<open>(r, c)\<close>, row by row; none when the square root of \<open>size\<close> is
  not an integer (the solver then skips the box check).
\<close>

definition boxCells :: "nat \<Rightarrow> nat \<Rightarrow> nat \<Rightarrow> (nat \<times> nat) list" where
  "boxCells sz r c =
     (case sqrtInt sz of
        None \<Rightarrow> []
      | Some boxSize \<Rightarrow>
          List.product [r div boxSize * boxSize ..< r div boxSize * boxSize + boxSize]
                       [c div boxSize * boxSize ..< c div boxSize * boxSize + boxSize])"

definition isValidMove :: "grid \<Rightarrow> nat \<Rightarrow> nat \<Rightarrow> int \<Rightarrow> nat \<Rightarrow> error + bool" where
  "isValidMove g r c num sz =
     (case scanFor g num (map (Pair r) [0..<sz] @ map (\<lambda>r'. (r', c)) [0..<sz] @ boxCells sz r c) of
        Inl e \<Rightarrow> Inl e
      | Inr hit \<Rightarrow> Inr (hit = None))"

definition findEmptyCell :: "grid \<Rightarrow> nat \<Rightarrow> error + (nat \<times> nat) option" where
  "findEmptyCell g sz = scanFor g 0 (List.product [0..<sz] [0..<sz])"

definition isGridComplete :: "grid \<Rightarrow> bool" where
  "isGridComplete g = list_all (\<lambda>rw. list_all (\<lambda>cell. cell \<noteq> 0) rw) g"

subsection \<open>validatePuzzle\<close>

datatype ErrorType = invalid_value | duplicate_in_row | duplicate_in_column | duplicate_in_box

text \<open>
  A validation error, without its message text. The value is the cell as read, so
  \<open>None\<close> where the source read \<open>undefined\<close>.
\<close>

record ValidationError =
  etype :: ErrorType
  position :: Position
  evalue :: "int option"

record ValidationResult =
  isValid :: bool
  errors :: "ValidationError list"
  isComplete :: bool
  conflictingCells :: "Position list"

text \<open>
  \<open>findConflicts\<close> is called by \<open>validatePuzzle\<close> only, with \<open>size = grid.length\<close> and
  \<open>r < size\<close>, so every row it reads exists. The comparisons \<open>value < 1\<close> and
  \<open>value > size\<close> are false for \<open>undefined\<close>.
\<close>

definition findConflicts :: "grid \<Rightarrow> nat \<Rightarrow> nat \<Rightarrow> int option \<Rightarrow> nat \<Rightarrow> ValidationError list" where
  "findConflicts g r c val sz =
     (let err = (\<lambda>t. \<lparr>etype = t, position = \<lparr>row = r, col = c\<rparr>, evalue = val\<rparr>) in
      if (case val of None \<Rightarrow> False | Some v \<Rightarrow> v < 1 \<or> int sz < v) then [err invalid_value]
      else map (\<lambda>_. err duplicate_in_row) (filter (\<lambda>c'. c' \<noteq> c \<and> cellAt g r c' = val) [0..<sz])
         @ map (\<lambda>_. err duplicate_in_column) (filter (\<lambda>r'. r' \<noteq> r \<and> cellAt g r' c = val) [0..<sz])
         @ map (\<lambda>_. err duplicate_in_box)
             (filter (\<lambda>(r', c'). (r' \<noteq> r \<or> c' \<noteq> c) \<and> cellAt g r' c' = val) (boxCells sz r c)))"

text \<open>One pass of the double loop of \<open>validatePuzzle\<close> over the cell \<open>(r, c)\<close>.\<close>

definition validateCell ::
  "grid \<Rightarrow> nat \<Rightarrow> nat \<times> nat \<Rightarrow> ValidationError list \<times> Position list
     \<Rightarrow> ValidationError list \<times> Position list" where
  "validateCell g sz rc acc =
     (case (rc, acc) of ((r, c), (errs, cells)) \<Rightarrow>
        let val = cellAt g r c in
        if val \<noteq> Some 0 then
          let conflicts = findConflicts g r c val sz in
          (errs @ conflicts, if conflicts \<noteq> [] then cells @ [\<lparr>row = r, col = c\<rparr>] else cells)
        else (errs, cells))"

definition validatePuzzle :: "grid \<Rightarrow> ValidationResult" where
  "validatePuzzle g =
     (let sz = length g;
          (errs, cells) = fold (validateCell g sz) (List.product [0..<sz] [0..<sz]) ([], [])
      in \<lparr>isValid = (errs = []), errors = errs, isComplete = isGridComplete g,
          conflictingCells = cells\<rparr>)"

subsection \<open>hasUniqueSolution\<close>

text \<open>
  \<open>Date.now()\<close> is an oracle \<open>now\<close>: \<open>now k\<close> is the value of the \<open>k\<close>-th reading, counted
  from 0 within one call of \<open>hasUniqueSolution\<close>. The state of the search is the working
  grid, the solutions pushed so far and the number of readings made. The source's tests
  short-circuit: the clock is read only when the tests before it are false.

  The recursion of \<open>findAllSolutionsWithTimeout\<close> and the \<open>for\<close> loop of its body
  (\<open>findAllLoop\<close>, entered with \<open>num = 1\<close>) are two functions; the loop writes the
  candidate, recurses one level deeper, writes 0 back and tests the cap and the clock.
\<close>

type_synonym searchState = "grid \<times> grid list \<times> nat"

function findAllSolutionsWithTimeout ::
    "(nat \<Rightarrow> int) \<Rightarrow> nat \<Rightarrow> nat \<Rightarrow> int \<Rightarrow> int \<Rightarrow> nat \<Rightarrow> searchState \<Rightarrow> error + searchState"
  and findAllLoop ::
    "(nat \<Rightarrow> int) \<Rightarrow> nat \<Rightarrow> nat \<Rightarrow> int \<Rightarrow> int \<Rightarrow> nat \<Rightarrow> nat \<Rightarrow> nat \<Rightarrow> nat \<Rightarrow> searchState
       \<Rightarrow> error + searchState"
where
  "findAllSolutionsWithTimeout now sz maxSolutions startTime timeout depth (g, solutions, k) =
     (if maxSolutions \<le> length solutions \<or> 81 < depth then Inr (g, solutions, k)
      else if timeout < now k - startTime then Inr (g, solutions, Suc k)
      else case findEmptyCell g sz of
             Inl e \<Rightarrow> Inl e
           | Inr None \<Rightarrow> Inr (g, solutions @ [g], Suc k)
           | Inr (Some (r, c)) \<Rightarrow>
               findAllLoop now sz maxSolutions startTime timeout depth r c 1 (g, solutions, Suc k))"
| "findAllLoop now sz maxSolutions startTime timeout depth r c num (g, solutions, k) =
     (if sz < num then Inr (g, solutions, k)
      else case isValidMove g r c (int num) sz of
             Inl e \<Rightarrow> Inl e
           | Inr False \<Rightarrow>
               findAllLoop now sz maxSolutions startTime timeout depth r c (Suc num) (g, solutions, k)
           | Inr True \<Rightarrow>
               (case findAllSolutionsWithTimeout now sz maxSolutions startTime timeout (Suc depth)
                       (setCell g r c (int num), solutions, k) of
                  Inl e \<Rightarrow> Inl e
                | Inr (g', solutions', k') \<Rightarrow>
                    if maxSolutions \<le> length solutions' then Inr (setCell g' r c 0, solutions', k')
                    else if timeout < now k' - startTime then Inr (setCell g' r c 0, solutions', Suc k')
                    else findAllLoop now sz maxSolutions startTime timeout depth r c (Suc num)
                           (setCell g' r c 0, solutions', Suc k')))"
  by pat_completeness auto
termination
  by (relation "inv_image (less_than <*lex*> less_than <*lex*> less_than)
        (\<lambda>x. case x of
           Inl (now, sz, maxSolutions, startTime, timeout, depth, st) \<Rightarrow> (83 - depth, 1::nat, 0::nat)
         | Inr (now, sz, maxSolutions, startTime, timeout, depth, r, c, num, st) \<Rightarrow>
             (82 - depth, 2, Suc sz - num))")
    auto

text \<open>
  \<open>hasUniqueSolution\<close>: the working copy, the start time (reading 0), a budget of 5000 ms
  and a cap of two solutions.
\<close>

declare findAllSolutionsWithTimeout.simps [simp del] findAllLoop.simps [simp del]

definition hasUniqueSolution :: "(nat \<Rightarrow> int) \<Rightarrow> grid \<Rightarrow> error + bool" where
  "hasUniqueSolution now g =
     (case findAllSolutionsWithTimeout now (length g) 2 (now 0) 5000 0 (g, [], 1) of
        Inl e \<Rightarrow> Inl e
      | Inr (_, solutions, _) \<Rightarrow> Inr (length solutions = 1))"

section \<open>Generator (puzzle-generator.ts)\<close>

text \<open>
  \<open>Math.random()\<close> is an oracle \<open>rnd\<close>: the \<open>k\<close>-th call, counted from 0 within one call of
  \<open>generatePuzzle\<close>, yields \<open>rnd k\<close>, and \<open>Math.floor(Math.random() * n)\<close> at that call is
  \<open>rnd k mod n\<close>, so every value \<open>0..n-1\<close> is a possible outcome. The functions take the
  number of calls made so far and return it updated.
\<close>

text \<open>\<open>shuffleArray\<close>: for \<open>i\<close> from \<open>length - 1\<close> down to 1, swap the entries \<open>i\<close> and \<open>j\<close>.\<close>

primrec shuffleLoop :: "(nat \<Rightarrow> nat) \<Rightarrow> nat \<Rightarrow> 'a list \<times> nat \<Rightarrow> 'a list \<times> nat" where
  "shuffleLoop rnd 0 st = st"
| "shuffleLoop rnd (Suc i) st =
     (case st of (shuffled, k) \<Rightarrow>
        let j = rnd k mod (Suc i + 1) in
        shuffleLoop rnd i (shuffled[Suc i := shuffled ! j, j := shuffled ! Suc i], Suc k))"

definition shuffleArray :: "(nat \<Rightarrow> nat) \<Rightarrow> 'a list \<Rightarrow> nat \<Rightarrow> 'a list \<times> nat" where
  "shuffleArray rnd array k = shuffleLoop rnd (length array - 1) (array, k)"

text \<open>
  The private methods below are reached from \<open>generatePuzzle\<close> after its size check, and
  from \<open>validateUniqueSolution\<close> with \<open>size = grid.length\<close>. Where \<open>Math.sqrt(size)\<close> is not
  an integer the source goes on with fractional bounds and indices; the model stops there
  with \<open>Unmodelled\<close>.
\<close>

definition generateBandWisePermutation :: "(nat \<Rightarrow> nat) \<Rightarrow> nat \<Rightarrow> nat \<Rightarrow> error + nat list \<times> nat" where
  "generateBandWisePermutation rnd sz k =
     (case sqrtInt sz of
        None \<Rightarrow> Inl Unmodelled
      | Some box \<Rightarrow>
          let (bands, k1) =
                fold (\<lambda>b (bands, k). let (perm, k') = shuffleArray rnd [b * box ..< b * box + box] k
                                      in (bands @ [perm], k'))
                  [0..<box] ([], k);
              (bandOrder, k2) = shuffleArray rnd [0..<box] k1
          in Inr (concat (map (\<lambda>b. bands ! b) bandOrder), k2))"

text \<open>
  \<open>isValidMove\<close> of the generator: the row, the column, then the box, leaving at the
  first hit. It has no test on the square root.
\<close>

definition isValidMoveGen :: "grid \<Rightarrow> nat \<Rightarrow> nat \<Rightarrow> int \<Rightarrow> nat \<Rightarrow> error + bool" where
  "isValidMoveGen g r c num sz =
     (case sqrtInt sz of
        None \<Rightarrow> Inl Unmodelled
      | Some boxSize \<Rightarrow>
          (case scanFor g num
                  (map (Pair r) [0..<sz] @ map (\<lambda>r'. (r', c)) [0..<sz]
                   @ List.product [r div boxSize * boxSize ..< r div boxSize * boxSize + boxSize]
                                  [c div boxSize * boxSize ..< c div boxSize * boxSize + boxSize]) of
             Inl e \<Rightarrow> Inl e
           | Inr hit \<Rightarrow> Inr (hit = None)))"

text \<open>
  \<open>solvePuzzle\<close> of the generator (\<open>findEmptyCell\<close> is the same method as in the solver).
  The source recurses without a bound; the model counts the nesting down from \<open>fuel\<close>.
  \<open>tryNumbers\<close> is the \<open>for\<close> loop over the shuffled candidates: it writes the candidate,
  recurses (\<open>solve\<close>), and writes 0 back when the recursive call fails.
\<close>

type_synonym fillState = "grid \<times> nat"

fun tryNumbers ::
  "(fillState \<Rightarrow> error + bool \<times> fillState) \<Rightarrow> nat \<Rightarrow> nat \<Rightarrow> nat \<Rightarrow> int list \<Rightarrow> fillState
     \<Rightarrow> error + bool \<times> fillState" where
  "tryNumbers solve sz r c [] st = Inr (False, st)"
| "tryNumbers solve sz r c (num # numbers) st =
     (case st of (g, k) \<Rightarrow>
        (case isValidMoveGen g r c num sz of
           Inl e \<Rightarrow> Inl e
         | Inr False \<Rightarrow> tryNumbers solve sz r c numbers (g, k)
         | Inr True \<Rightarrow>
             (case solve (setCell g r c num, k) of
                Inl e \<Rightarrow> Inl e
              | Inr (True, st') \<Rightarrow> Inr (True, st')
              | Inr (False, (g', k')) \<Rightarrow> tryNumbers solve sz r c numbers (setCell g' r c 0, k'))))"

primrec solvePuzzleGen :: "(nat \<Rightarrow> nat) \<Rightarrow> nat \<Rightarrow> nat \<Rightarrow> fillState \<Rightarrow> error + bool \<times> fillState" where
  "solvePuzzleGen rnd sz 0 st = Inl OutOfFuel"
| "solvePuzzleGen rnd sz (Suc fuel) st =
     (case st of (g, k) \<Rightarrow>
        (case findEmptyCell g sz of
           Inl e \<Rightarrow> Inl e
         | Inr None \<Rightarrow> Inr (True, (g, k))
         | Inr (Some (r, c)) \<Rightarrow>
             (case shuffleArray rnd (map int [1..<Suc sz]) k of (numbers, k1) \<Rightarrow>
                tryNumbers (solvePuzzleGen rnd sz fuel) sz r c numbers (g, k1))))"

text \<open>
  \<open>generateCompleteSolution\<close>, from the grid of zeros. A fuel of \<open>size * size + 1\<close> is
  one more than the number of cells.
\<close>

definition generateCompleteSolution :: "(nat \<Rightarrow> nat) \<Rightarrow> nat \<Rightarrow> nat \<Rightarrow> error + grid \<times> nat" where
  "generateCompleteSolution rnd sz k =
     (case solvePuzzleGen rnd sz (Suc (sz * sz)) (replicate sz (replicate sz 0), k) of
        Inl e \<Rightarrow> Inl e
      | Inr (True, (g, k')) \<Rightarrow> Inr (g, k')
      | Inr (False, _) \<Rightarrow> Inl GenerationFailed)"

text \<open>\<open>hasAnySolution\<close> works on a copy, so the caller's grid is left alone.\<close>

definition hasAnySolution :: "(nat \<Rightarrow> nat) \<Rightarrow> grid \<Rightarrow> nat \<Rightarrow> nat \<Rightarrow> error + bool \<times> nat" where
  "hasAnySolution rnd g sz k =
     (case solvePuzzleGen rnd sz (Suc (sz * sz)) (g, k) of
        Inl e \<Rightarrow> Inl e
      | Inr (ok, (_, k')) \<Rightarrow> Inr (ok, k'))"

text \<open>
  \<open>findAllSolutions\<close> and \<open>validateUniqueSolution\<close>: candidates in ascending order, the
  search stops once \<open>maxSolutions\<close> solutions are pushed. \<open>collectNumbers\<close> is the \<open>for\<close>
  loop of the body.
\<close>

type_synonym collectState = "grid \<times> grid list"

fun collectNumbers ::
  "(collectState \<Rightarrow> error + collectState) \<Rightarrow> nat \<Rightarrow> nat \<Rightarrow> nat \<Rightarrow> nat \<Rightarrow> int list \<Rightarrow> collectState
     \<Rightarrow> error + collectState" where
  "collectNumbers search sz maxSolutions r c [] st = Inr st"
| "collectNumbers search sz maxSolutions r c (num # numbers) st =
     (case st of (g, solutions) \<Rightarrow>
        (case isValidMoveGen g r c num sz of
           Inl e \<Rightarrow> Inl e
         | Inr False \<Rightarrow> collectNumbers search sz maxSolutions r c numbers (g, solutions)
         | Inr True \<Rightarrow>
             (case search (setCell g r c num, solutions) of
                Inl e \<Rightarrow> Inl e
              | Inr (g', solutions') \<Rightarrow>
                  if maxSolutions \<le> length solutions' then Inr (setCell g' r c 0, solutions')
                  else collectNumbers search sz maxSolutions r c numbers (setCell g' r c 0, solutions'))))"

primrec findAllSolutions :: "nat \<Rightarrow> nat \<Rightarrow> nat \<Rightarrow> collectState \<Rightarrow> error + collectState" where
  "findAllSolutions sz maxSolutions 0 st = Inl OutOfFuel"
| "findAllSolutions sz maxSolutions (Suc fuel) st =
     (case st of (g, solutions) \<Rightarrow>
        if maxSolutions \<le> length solutions then Inr (g, solutions)
        else (case findEmptyCell g sz of
                Inl e \<Rightarrow> Inl e
              | Inr None \<Rightarrow> Inr (g, solutions @ [g])
              | Inr (Some (r, c)) \<Rightarrow>
                  collectNumbers (findAllSolutions sz maxSolutions fuel) sz maxSolutions r c
                    (map int [1..<Suc sz]) (g, solutions)))"

definition validateUniqueSolution :: "grid \<Rightarrow> error + bool" where
  "validateUniqueSolution g =
     (case findAllSolutions (length g) 2 (Suc (length g * length g)) (g, []) of
        Inl e \<Rightarrow> Inl e
      | Inr (_, solutions) \<Rightarrow> Inr (length solutions = 1))"

subsection \<open>Removing clues\<close>

text \<open>
  \<open>calculateTargetClues\<close>. For other sizes than 9 the source takes the floor of
  \<open>size * size\<close> times a ratio with two decimals; the model computes it on integers.
\<close>

definition clueRange :: "Difficulty \<Rightarrow> nat \<times> nat" where
  "clueRange d = (case d of BEGINNER \<Rightarrow> (50, 60) | EASY \<Rightarrow> (36, 46) | MEDIUM \<Rightarrow> (32, 35)
                    | HARD \<Rightarrow> (28, 31) | EXPERT \<Rightarrow> (22, 27))"

definition clueRatioPercent :: "Difficulty \<Rightarrow> nat" where
  "clueRatioPercent d = (case d of BEGINNER \<Rightarrow> 65 | EASY \<Rightarrow> 50 | MEDIUM \<Rightarrow> 40 | HARD \<Rightarrow> 32 | EXPERT \<Rightarrow> 28)"

definition calculateTargetClues :: "(nat \<Rightarrow> nat) \<Rightarrow> nat \<Rightarrow> Difficulty \<Rightarrow> nat \<Rightarrow> nat \<times> nat" where
  "calculateTargetClues rnd sz d k =
     (if sz = 9 then
        (case clueRange d of (lo, hi) \<Rightarrow> (rnd k mod (hi - lo + 1) + lo, Suc k))
      else (sz * sz * clueRatioPercent d div 100, k))"

text \<open>
  \<open>getBalancedRemovalOrder\<close>. The positions of each box, shuffled; the boxes, shuffled;
  then \<open>roundRobin\<close>, the \<open>while\<close> loop: each pass pops the last position of every box
  that still has one, going through the boxes forwards on even passes and backwards on odd
  ones. The counter \<open>remaining\<close> of the source is the number of positions left in the
  boxes, which the model reads off the boxes.
\<close>

function roundRobin :: "'a list list \<Rightarrow> nat \<Rightarrow> 'a list \<Rightarrow> 'a list" where
  "roundRobin boxes step order =
     (if sum_list (map length boxes) = 0 then order
      else
        let traverse = (if step mod 2 = 0 then boxes else rev boxes) in
        roundRobin (map butlast boxes) (Suc step)
          (order @ map last (filter (\<lambda>box. box \<noteq> []) traverse)))"
  by pat_completeness auto
termination
proof (relation "measure (\<lambda>(boxes, step, order). sum_list (map length boxes))")
  show "wf (measure (\<lambda>(boxes :: 'a list list, step :: nat, order :: 'a list).
              sum_list (map length boxes)))" by simp
next
  fix boxes x :: "'a list list" and step :: nat and order :: "'a list"
  assume "sum_list (map length boxes) \<noteq> 0"
  then have "sum_list (map length (map butlast boxes)) < sum_list (map length boxes)"
  proof (induction boxes)
    case Nil
    then show ?case by simp
  next
    case (Cons b bs)
    show ?case
    proof (cases "sum_list (map length bs) = 0")
      case True
      then have "b \<noteq> []" using Cons.prems by auto
      moreover have "sum_list (map length (map butlast bs)) \<le> sum_list (map length bs)"
        by (induction bs) auto
      ultimately show ?thesis by (cases b) auto
    next
      case False
      then have "sum_list (map length (map butlast bs)) < sum_list (map length bs)"
        by (rule Cons.IH)
      then show ?thesis by simp
    qed
  qed
  then show "((map butlast boxes, Suc step, order @ map last (filter (\<lambda>box. box \<noteq> []) x)),
              (boxes, step, order))
             \<in> measure (\<lambda>(boxes, step, order). sum_list (map length boxes))"
    by simp
qed

declare roundRobin.simps [simp del]

definition getBalancedRemovalOrder :: "(nat \<Rightarrow> nat) \<Rightarrow> nat \<Rightarrow> nat \<Rightarrow> error + Position list \<times> nat" where
  "getBalancedRemovalOrder rnd sz k =
     (case sqrtInt sz of
        None \<Rightarrow> Inl Unmodelled
      | Some boxSize \<Rightarrow>
          let (boxes, k1) =
                fold (\<lambda>(boxRow, boxCol) (boxes, k).
                        let boxPositions =
                              map (\<lambda>(r, c). \<lparr>row = r, col = c\<rparr>)
                                (List.product [boxRow * boxSize ..< (boxRow + 1) * boxSize]
                                              [boxCol * boxSize ..< (boxCol + 1) * boxSize]);
                            (shuffled, k') = shuffleArray rnd boxPositions k
                        in (boxes @ [shuffled], k'))
                  (List.product [0..<boxSize] [0..<boxSize]) ([], k);
              (shuffledBoxes, k2) = shuffleArray rnd boxes k1
          in Inr (roundRobin shuffledBoxes 0 [], k2))"

text \<open>
  The removal loops run over the positions of \<open>getBalancedRemovalOrder size\<close> on a grid of
  \<open>size\<close> rows of length \<open>size\<close>, so each position read or written exists. The state of
  the permissive loop is the puzzle and \<open>currentClues\<close>; the gated loop has \<open>attempts\<close>
  and the number of calls of \<open>Math.random()\<close> as well.
\<close>

fun easyLoop :: "Position list \<Rightarrow> nat \<Rightarrow> grid \<times> nat \<Rightarrow> grid" where
  "easyLoop [] targetClues (puzzle, currentClues) = puzzle"
| "easyLoop (pos # order) targetClues (puzzle, currentClues) =
     (if currentClues \<le> targetClues then puzzle
      else if cellAt puzzle (row pos) (col pos) = Some 0
           then easyLoop order targetClues (puzzle, currentClues)
           else easyLoop order targetClues (setCell puzzle (row pos) (col pos) 0, currentClues - 1))"

definition createEasyPuzzle ::
  "(nat \<Rightarrow> nat) \<Rightarrow> grid \<Rightarrow> nat \<Rightarrow> nat \<Rightarrow> nat \<Rightarrow> error + grid \<times> nat" where
  "createEasyPuzzle rnd puzzle targetClues sz k =
     (case getBalancedRemovalOrder rnd sz k of
        Inl e \<Rightarrow> Inl e
      | Inr (order, k1) \<Rightarrow> Inr (easyLoop order targetClues (puzzle, sz * sz), k1))"

fun hardLoop ::
  "(nat \<Rightarrow> nat) \<Rightarrow> nat \<Rightarrow> Position list \<Rightarrow> nat \<Rightarrow> grid \<times> nat \<times> nat \<times> nat \<Rightarrow> error + grid \<times> nat" where
  "hardLoop rnd sz [] targetClues (puzzle, currentClues, attempts, k) = Inr (puzzle, k)"
| "hardLoop rnd sz (pos # order) targetClues (puzzle, currentClues, attempts, k) =
     (if currentClues \<le> targetClues \<or> 200 \<le> attempts then Inr (puzzle, k)
      else
        let originalValue = cellAt puzzle (row pos) (col pos) in
        if originalValue = Some 0
        then hardLoop rnd sz order targetClues (puzzle, currentClues, attempts + 1, k)
        else
          let removed = setCell puzzle (row pos) (col pos) 0 in
          if (attempts + 1) mod 5 = 0 then
            (case hasAnySolution rnd removed sz k of
               Inl e \<Rightarrow> Inl e
             | Inr (False, k') \<Rightarrow>
                 hardLoop rnd sz order targetClues
                   (case originalValue of
                      None \<Rightarrow> removed
                    | Some v \<Rightarrow> setCell removed (row pos) (col pos) v,
                    currentClues, attempts + 1, k')
             | Inr (True, k') \<Rightarrow>
                 hardLoop rnd sz order targetClues (removed, currentClues - 1, attempts + 1, k'))
          else hardLoop rnd sz order targetClues (removed, currentClues - 1, attempts + 1, k))"

definition createHardPuzzle ::
  "(nat \<Rightarrow> nat) \<Rightarrow> grid \<Rightarrow> nat \<Rightarrow> nat \<Rightarrow> nat \<Rightarrow> error + grid \<times> nat" where
  "createHardPuzzle rnd puzzle targetClues sz k =
     (case getBalancedRemovalOrder rnd sz k of
        Inl e \<Rightarrow> Inl e
      | Inr (order, k1) \<Rightarrow> hardLoop rnd sz order targetClues (puzzle, sz * sz, 0, k1))"

definition createPuzzleFromSolution ::
  "(nat \<Rightarrow> nat) \<Rightarrow> grid \<Rightarrow> Difficulty \<Rightarrow> nat \<Rightarrow> nat \<Rightarrow> error + grid \<times> nat" where
  "createPuzzleFromSolution rnd sol d sz k =
     (case calculateTargetClues rnd sz d k of (targetClues, k1) \<Rightarrow>
        if d = EXPERT \<or> d = HARD then createHardPuzzle rnd sol targetClues sz k1
        else createEasyPuzzle rnd sol targetClues sz k1)"

subsection \<open>Technique analysis and generatePuzzle\<close>

text \<open>
  The technique methods of the generator work in place on \<open>workingGrid\<close> with
  \<open>size = grid.length\<close>, so \<open>isValidMove\<close> reads existing rows only; the functions return
  the grid together with \<open>progress\<close>. A candidate is a value for which \<open>isValidMove\<close>
  returns true.
\<close>

definition getCandidatesGen :: "grid \<Rightarrow> nat \<Rightarrow> nat \<Rightarrow> nat \<Rightarrow> int list" where
  "getCandidatesGen g r c sz = filter (\<lambda>num. isValidMoveGen g r c num sz = Inr True) (map int [1..<Suc sz])"

definition applyNakedSinglesGen :: "grid \<Rightarrow> grid \<times> bool" where
  "applyNakedSinglesGen g =
     (let sz = length g in
      fold (\<lambda>(r, c) (g, progress).
              if cellAt g r c = Some 0 then
                (let candidates = getCandidatesGen g r c sz in
                 if length candidates = 1 then (setCell g r c (candidates ! 0), True)
                 else (g, progress))
              else (g, progress))
        (List.product [0..<sz] [0..<sz]) (g, False))"

definition findHiddenSinglesInRowGen :: "grid \<Rightarrow> nat \<Rightarrow> nat \<Rightarrow> grid \<times> bool" where
  "findHiddenSinglesInRowGen g r sz =
     fold (\<lambda>num (g, progress).
             let possibleCols =
                   filter (\<lambda>c. cellAt g r c = Some 0 \<and> isValidMoveGen g r c num sz = Inr True) [0..<sz]
             in if length possibleCols = 1 then (setCell g r (possibleCols ! 0) num, True)
                else (g, progress))
       (map int [1..<Suc sz]) (g, False)"

definition findHiddenSinglesInColumnGen :: "grid \<Rightarrow> nat \<Rightarrow> nat \<Rightarrow> grid \<times> bool" where
  "findHiddenSinglesInColumnGen g c sz =
     fold (\<lambda>num (g, progress).
             let possibleRows =
                   filter (\<lambda>r. cellAt g r c = Some 0 \<and> isValidMoveGen g r c num sz = Inr True) [0..<sz]
             in if length possibleRows = 1 then (setCell g (possibleRows ! 0) c num, True)
                else (g, progress))
       (map int [1..<Suc sz]) (g, False)"

definition findHiddenSinglesInBoxGen :: "grid \<Rightarrow> nat \<Rightarrow> nat \<Rightarrow> nat \<Rightarrow> grid \<times> bool" where
  "findHiddenSinglesInBoxGen g startRow startCol boxSize =
     (let sz = length g in
      fold (\<lambda>num (g, progress).
              let possiblePositions =
                    filter (\<lambda>(r, c). cellAt g r c = Some 0 \<and> isValidMoveGen g r c num sz = Inr True)
                      (List.product [startRow ..< startRow + boxSize] [startCol ..< startCol + boxSize])
              in if length possiblePositions = 1
                 then (case possiblePositions ! 0 of (r, c) \<Rightarrow> (setCell g r c num, True))
                 else (g, progress))
        (map int [1..<Suc sz]) (g, False))"

text \<open>
  \<open>progress = f(grid) || progress\<close>: the call is made first, whatever \<open>progress\<close> is.
\<close>

definition applyHiddenSinglesGen :: "grid \<Rightarrow> nat \<Rightarrow> grid \<times> bool" where
  "applyHiddenSinglesGen g boxSize =
     (let sz = length g;
          st1 = fold (\<lambda>i (g, progress).
                        case findHiddenSinglesInRowGen g i sz of (g1, p1) \<Rightarrow>
                        case findHiddenSinglesInColumnGen g1 i sz of (g2, p2) \<Rightarrow>
                          (g2, p2 \<or> (p1 \<or> progress)))
                  [0..<sz] (g, False)
      in fold (\<lambda>(boxRow, boxCol) (g, progress).
                 case findHiddenSinglesInBoxGen g boxRow boxCol boxSize of (g1, p1) \<Rightarrow> (g1, p1 \<or> progress))
           (List.product (map (\<lambda>i. i * boxSize) [0..<boxSize]) (map (\<lambda>i. i * boxSize) [0..<boxSize]))
           st1)"

text \<open>
  The \<open>while\<close> loop of \<open>analyzeSolvingTechniques\<close>; \<open>applyNakedPairs\<close> always returns
  false. Each pass that goes on has filled a cell, and the fuel given is one more than the
  number of cells.
\<close>

definition pushTechnique :: "SolvingTechnique \<Rightarrow> SolvingTechnique list \<Rightarrow> SolvingTechnique list" where
  "pushTechnique t ts = (if t \<in> set ts then ts else ts @ [t])"

primrec analyzeLoop :: "nat \<Rightarrow> nat \<Rightarrow> grid \<times> SolvingTechnique list \<Rightarrow> error + SolvingTechnique list" where
  "analyzeLoop boxSize 0 st = Inl OutOfFuel"
| "analyzeLoop boxSize (Suc fuel) st =
     (case st of (workingGrid, ts) \<Rightarrow>
        if isGridComplete workingGrid then Inr ts
        else (case applyNakedSinglesGen workingGrid of
                (g1, True) \<Rightarrow> analyzeLoop boxSize fuel (g1, pushTechnique NAKED_SINGLES ts)
              | (g1, False) \<Rightarrow>
                  (case applyHiddenSinglesGen g1 boxSize of
                     (g2, True) \<Rightarrow> analyzeLoop boxSize fuel (g2, pushTechnique HIDDEN_SINGLES ts)
                   | (g2, False) \<Rightarrow> Inr (ts @ [FORCING_CHAINS]))))"

definition analyzeSolvingTechniques :: "grid \<Rightarrow> grid \<Rightarrow> error + SolvingTechnique list" where
  "analyzeSolvingTechniques puzzle sol =
     (case sqrtInt (length puzzle) of
        None \<Rightarrow> Inl Unmodelled
      | Some boxSize \<Rightarrow> analyzeLoop boxSize (Suc (length puzzle * length puzzle)) (puzzle, []))"

text \<open>
  Scores are JavaScript numbers, taken as reals. \<open>Math.round\<close> rounds to the nearest
  integer, halves upwards.
\<close>

definition techniqueScores :: "SolvingTechnique \<Rightarrow> real" where
  "techniqueScores t =
     (case t of NAKED_SINGLES \<Rightarrow> 0.1 | HIDDEN_SINGLES \<Rightarrow> 0.2 | NAKED_PAIRS \<Rightarrow> 1.0
        | HIDDEN_PAIRS \<Rightarrow> 1.2 | POINTING_PAIRS \<Rightarrow> 1.5 | BOX_LINE_REDUCTION \<Rightarrow> 1.8
        | X_WING \<Rightarrow> 2.5 | SWORDFISH \<Rightarrow> 3.5 | XY_WING \<Rightarrow> 4.0 | COLORING \<Rightarrow> 4.5
        | FORCING_CHAINS \<Rightarrow> 5.0)"

definition mathRound :: "real \<Rightarrow> int" where
  "mathRound x = \<lfloor>x + 1 / 2\<rfloor>"

definition calculateDifficultyFromTechniques :: "SolvingTechnique list \<Rightarrow> real" where
  "calculateDifficultyFromTechniques ts = min (fold (\<lambda>t score. score + techniqueScores t) ts 0) 10"

definition estimateSolveTimeGen :: "real \<Rightarrow> int" where
  "estimateSolveTimeGen score = mathRound (300 * (1 + score / 5))"

definition variantName :: "PuzzleVariant \<Rightarrow> string" where
  "variantName v = (case v of CLASSIC \<Rightarrow> ''classic'' | KILLER \<Rightarrow> ''killer'' | X_SUDOKU \<Rightarrow> ''x-sudoku''
                      | HYPER \<Rightarrow> ''hyper'' | MINI \<Rightarrow> ''mini'' | MEGA \<Rightarrow> ''mega'')"

definition difficultyName :: "Difficulty \<Rightarrow> string" where
  "difficultyName d = (case d of BEGINNER \<Rightarrow> ''beginner'' | EASY \<Rightarrow> ''easy'' | MEDIUM \<Rightarrow> ''medium''
                         | HARD \<Rightarrow> ''hard'' | EXPERT \<Rightarrow> ''expert'')"

text \<open>
  \<open>generatePuzzle\<close>. The environment gives the outcomes of \<open>Math.random()\<close> (see above),
  the identifier that \<open>generatePuzzleId\<close> builds from the options, the clock and one more
  random draw, and the creation date; the model takes the last two as they come. The
  \<open>Promise\<close> is rejected with the error where the model returns \<open>Inl\<close>.
\<close>

record Env =
  random :: "nat \<Rightarrow> nat"
  puzzleId :: string
  today :: int

definition generatePuzzle :: "Env \<Rightarrow> PuzzleGenerationOptions \<Rightarrow> error + grid Puzzle" where
  "generatePuzzle env options =
     (let sz = PuzzleGenerationOptions.size' options; rnd = random env in
      case sqrtInt sz of
        None \<Rightarrow> Inl InvalidSize
      | Some boxSize \<Rightarrow>
     (case generateBandWisePermutation rnd sz 0 of Inl e \<Rightarrow> Inl e | Inr (rowPerm, k1) \<Rightarrow>
     (case generateBandWisePermutation rnd sz k1 of Inl e \<Rightarrow> Inl e | Inr (colPerm, k2) \<Rightarrow>
     (case generateCompleteSolution rnd sz k2 of Inl e \<Rightarrow> Inl e | Inr (solution0, k3) \<Rightarrow>
     (case applyPermutation solution0 rowPerm colPerm of None \<Rightarrow> Inl Unmodelled | Some solution1 \<Rightarrow>
     (case createPuzzleFromSolution rnd solution1 (PuzzleGenerationOptions.difficulty options) sz k3 of
        Inl e \<Rightarrow> Inl e | Inr (initialState1, k4) \<Rightarrow>
     (case (invertPermutation rowPerm, invertPermutation colPerm) of
        (Some rowInv, Some colInv) \<Rightarrow>
     (case (applyPermutation initialState1 rowInv colInv, applyPermutation solution1 rowInv colInv) of
        (Some initialState2, Some solution2) \<Rightarrow>
     (case analyzeSolvingTechniques initialState2 solution2 of Inl e \<Rightarrow> Inl e | Inr ts \<Rightarrow>
        let score = calculateDifficultyFromTechniques ts in
        Inr \<lparr>id' = puzzleId env,
             variant = PuzzleGenerationOptions.variant options,
             difficulty = PuzzleGenerationOptions.difficulty options,
             size' = sz,
             initialState = initialState2,
             solution = solution2,
             constraints = (case PuzzleGenerationOptions.constraints options of None \<Rightarrow> [] | Some cs \<Rightarrow> cs),
             metadata = \<lparr>estimatedSolveTime = estimateSolveTimeGen score,
                          techniques = ts,
                          rating = real_of_int (mathRound (score * 10)) / 10,
                          playCount = 0,
                          averageSolveTime = 0,
                          createdBy = None,
                          tags = Some [variantName (PuzzleGenerationOptions.variant options),
                                       difficultyName (PuzzleGenerationOptions.difficulty options)]\<rparr>,
             createdAt = today env,
             difficultyScore = score\<rparr>)
      | _ \<Rightarrow> Inl Unmodelled)
      | _ \<Rightarrow> Inl Unmodelled)))))))"

text \<open>
  The solutions that the search of \<open>hasUniqueSolution\<close> has pushed when it returns, and
  whether one of the clock readings made during that search (readings 1, 2, ...) was
  beyond the budget.
\<close>

definition solutionsFound :: "(nat \<Rightarrow> int) \<Rightarrow> grid \<Rightarrow> grid list" where
  "solutionsFound now g =
     (case findAllSolutionsWithTimeout now (length g) 2 (now 0) 5000 0 (g, [], 1) of
        Inl e \<Rightarrow> []
      | Inr (_, solutions, _) \<Rightarrow> solutions)"

definition searchTimedOut :: "(nat \<Rightarrow> int) \<Rightarrow> grid \<Rightarrow> bool" where
  "searchTimedOut now g =
     (case findAllSolutionsWithTimeout now (length g) 2 (now 0) 5000 0 (g, [], 1) of
        Inl e \<Rightarrow> False
      | Inr (_, _, k) \<Rightarrow> list_ex (\<lambda>i. 5000 < now i - now 0) [1..<k])"

text \<open>A clock that never goes back.\<close>

definition monotoneClock :: "(nat \<Rightarrow> int) \<Rightarrow> bool" where
  "monotoneClock now = (\<forall>i j. i \<le> j \<longrightarrow> now i \<le> now j)"

section \<open>Specification-level notions\<close>

text \<open>A square grid of side \<open>n\<close>.\<close>

definition squareGrid :: "nat \<Rightarrow> grid \<Rightarrow> bool" where
  "squareGrid n g = (length g = n \<and> (\<forall>rw \<in> set g. length rw = n))"

text \<open>The boxes of a grid of side \<open>n\<close>, each as the list of its cells; none when \<open>n\<close> is not a square.\<close>

definition boxesOf :: "nat \<Rightarrow> (nat \<times> nat) list list" where
  "boxesOf n =
     (case sqrtInt n of
        None \<Rightarrow> []
      | Some b \<Rightarrow> concat (map (\<lambda>br. map (\<lambda>bc. List.product [br * b ..< br * b + b] [bc * b ..< bc * b + b])
                                  [0..<b]) [0..<b]))"

text \<open>
  A complete grid that is legal under the row, column and box constraints: square, every
  cell in \<open>1..n\<close>, no value twice in a row, a column or a box.
\<close>

definition legalComplete :: "grid \<Rightarrow> bool" where
  "legalComplete g =
     (let n = length g in
      squareGrid n g
      \<and> (\<forall>rw \<in> set g. \<forall>v \<in> set rw. 1 \<le> v \<and> v \<le> int n)
      \<and> (\<forall>rw \<in> set g. distinct rw)
      \<and> (\<forall>c \<in> set [0..<n]. distinct (map (\<lambda>r. g ! r ! c) [0..<n]))
      \<and> (\<forall>bx \<in> set (boxesOf n). distinct (map (\<lambda>(r, c). g ! r ! c) bx)))"

text \<open>
  The empty cells that the searches look at: the cells holding 0 among the first \<open>sz\<close>
  columns of the first \<open>sz\<close> rows.
\<close>

definition countEmpty :: "nat \<Rightarrow> grid \<Rightarrow> nat" where
  "countEmpty sz g = length (filter (\<lambda>(r, c). cellAt g r c = Some 0) (List.product [0..<sz] [0..<sz]))"

text \<open>The clues among the same cells: those that do not hold 0.\<close>

definition countClues :: "nat \<Rightarrow> grid \<Rightarrow> nat" where
  "countClues sz g = length (filter (\<lambda>(r, c). cellAt g r c \<noteq> Some 0) (List.product [0..<sz] [0..<sz]))"

text \<open>
  \<open>clearedFrom s g\<close>: the grid \<open>g\<close> is obtained from \<open>s\<close> by setting some cells to 0.
\<close>

definition clearedFrom :: "grid \<Rightarrow> grid \<Rightarrow> bool" where
  "clearedFrom s g = list_all2 (\<lambda>sr gr. list_all2 (\<lambda>sv gv. gv = 0 \<or> gv = sv) sr gr) s g"

text \<open>
  Two cells see each other when they share a row, a column or a box of side \<open>b\<close>. A
  partially filled grid of side \<open>sz\<close> is consistent when its cells are in \<open>0..sz\<close> and no
  filled cell has its value in another cell that it sees.
\<close>

definition related :: "nat \<Rightarrow> nat \<times> nat \<Rightarrow> nat \<times> nat \<Rightarrow> bool" where
  "related b p q = (fst p = fst q \<or> snd p = snd q
                     \<or> (fst p div b = fst q div b \<and> snd p div b = snd q div b))"

definition partialLegal :: "nat \<Rightarrow> nat \<Rightarrow> grid \<Rightarrow> bool" where
  "partialLegal sz b g =
     ((\<forall>r<sz. \<forall>c<sz. 0 \<le> g ! r ! c \<and> g ! r ! c \<le> int sz)
      \<and> (\<forall>r<sz. \<forall>c<sz. \<forall>r'<sz. \<forall>c'<sz.
            (r, c) \<noteq> (r', c') \<and> related b (r, c) (r', c') \<and> g ! r ! c \<noteq> 0
              \<longrightarrow> g ! r ! c \<noteq> g ! r' ! c'))"

text \<open>A permutation of \<open>0..n-1\<close>, as a list.\<close>

definition isPermutation :: "nat \<Rightarrow> nat list \<Rightarrow> bool" where
  "isPermutation n p = (length p = n \<and> distinct p \<and> (\<forall>x \<in> set p. x < n))"

text \<open>
  One pass of a technique over a grid and its \<open>progress\<close> flag: either nothing changed,
  or the flag is set and fewer cells are empty.
\<close>

definition advances :: "nat \<Rightarrow> grid \<times> bool \<Rightarrow> grid \<times> bool \<Rightarrow> bool" where
  "advances sz st st' =
     (length (fst st') = length (fst st)
      \<and> (st' = st \<or> (snd st' \<and> countEmpty sz (fst st') < countEmpty sz (fst st))))"

text \<open>
  What a backtracking call on \<open>g\<close> that returns \<open>ok\<close> with the grid \<open>g'\<close> has to meet: a
  failed call leaves the grid as it was; a successful one leaves a square grid with no
  empty cell, legal if \<open>g\<close> was; and the call succeeds whenever \<open>g\<close> was obtained from some
  complete legal grid by clearing cells.
\<close>

definition solveSpec :: "nat \<Rightarrow> nat \<Rightarrow> grid \<Rightarrow> bool \<Rightarrow> grid \<Rightarrow> bool" where
  "solveSpec sz b g ok g' =
     ((\<not> ok \<longrightarrow> g' = g)
      \<and> (ok \<longrightarrow> squareGrid sz g' \<and> countEmpty sz g' = 0
                 \<and> (partialLegal sz b g \<longrightarrow> partialLegal sz b g'))
      \<and> ((\<exists>s. legalComplete s \<and> clearedFrom s g) \<longrightarrow> ok))"

section \<open>Lemmas on list updates in a loop\<close>

lemma length_fold_update:
  "length (fold (\<lambda>k xs. xs[f k := v k xs]) ks xs) = length xs"
  by (induction ks arbitrary: xs) auto

lemma fold_update_other:
  "i \<notin> f ` set ks \<Longrightarrow> fold (\<lambda>k xs. xs[f k := v k xs]) ks xs ! i = xs ! i"
  by (induction ks arbitrary: xs) auto

lemma fold_update_hit:
  assumes "distinct (map f ks)" and "k \<in> set ks" and "f k < length xs"
    and "\<And>ys. length ys = length xs \<Longrightarrow> ys ! (f k) = xs ! (f k) \<Longrightarrow> v k ys = w"
  shows "fold (\<lambda>k xs. xs[f k := v k xs]) ks xs ! (f k) = w"
  using assms
proof (induction ks arbitrary: xs)
  case Nil
  then show ?case by simp
next
  case (Cons a ks)
  show ?case
  proof (cases "a = k")
    case True
    have notin: "f k \<notin> f ` set ks" using Cons.prems(1) True by auto
    have "fold (\<lambda>k xs. xs[f k := v k xs]) (a # ks) xs ! (f k)
          = fold (\<lambda>k xs. xs[f k := v k xs]) ks (xs[f k := v k xs]) ! (f k)"
      using True by simp
    also have "\<dots> = (xs[f k := v k xs]) ! (f k)"
      using fold_update_other [OF notin] by fast
    also have "\<dots> = v k xs" using Cons.prems(3) by simp
    also have "\<dots> = w" using Cons.prems(4) by simp
    finally show ?thesis .
  next
    case False
    then have kin: "k \<in> set ks" using Cons.prems(2) by simp
    have ne: "f a \<noteq> f k" using Cons.prems(1) kin by auto
    have "fold (\<lambda>k xs. xs[f k := v k xs]) ks (xs[f a := v a xs]) ! (f k) = w"
    proof (rule Cons.IH)
      show "distinct (map f ks)" using Cons.prems(1) by simp
      show "k \<in> set ks" by (rule kin)
      show "f k < length (xs[f a := v a xs])" using Cons.prems(3) by simp
      fix ys assume "length ys = length (xs[f a := v a xs])"
        and "ys ! f k = xs[f a := v a xs] ! f k"
      then show "v k ys = w" using Cons.prems(4) ne by simp
    qed
    then show ?thesis by simp
  qed
qed

section \<open>Permutations: inverse and round trip\<close>

lemma isPermutation_set: "isPermutation n p \<Longrightarrow> set p = {..<n}"
proof -
  assume a: "isPermutation n p"
  have sub: "set p \<subseteq> {..<n}" using a by (auto simp: isPermutation_def)
  have "card (set p) = n" using a by (simp add: isPermutation_def distinct_card)
  then have "card (set p) = card {..<n}" by simp
  with sub show ?thesis by (simp add: card_subset_eq)
qed

lemma isPermutation_nth_less: "isPermutation n p \<Longrightarrow> i < n \<Longrightarrow> p ! i < n"
  by (simp add: isPermutation_def)

lemma isPermutation_surj: "isPermutation n p \<Longrightarrow> j < n \<Longrightarrow> \<exists>i<n. p ! i = j"
proof -
  assume a: "isPermutation n p" and j: "j < n"
  then have "j \<in> set p" by (simp add: isPermutation_set)
  then obtain i where "i < length p" "p ! i = j" by (auto simp: in_set_conv_nth)
  then show ?thesis using a by (auto simp: isPermutation_def)
qed

lemma isPermutation_distinct_idx: "isPermutation n p \<Longrightarrow> distinct (map ((!) p) [0..<n])"
proof -
  assume a: "isPermutation n p"
  then have "map ((!) p) [0..<n] = p" using map_nth [of p] by (simp add: isPermutation_def)
  then show ?thesis using a by (simp add: isPermutation_def)
qed

lemma invertPermutation_Some:
  assumes "isPermutation n p"
  shows "\<exists>ip. invertPermutation p = Some ip \<and> isPermutation n ip
           \<and> (\<forall>i<n. ip ! (p ! i) = i) \<and> (\<forall>j<n. p ! (ip ! j) = j)"
proof -
  define ip where "ip = fold (\<lambda>i inv. inv[p ! i := i]) [0..<length p] (replicate (length p) 0)"
  have len: "length p = n" using assms by (simp add: isPermutation_def)
  have inv: "invertPermutation p = Some ip"
    using assms by (simp add: invertPermutation_def ip_def isPermutation_def)
  have lip: "length ip = n"
    unfolding ip_def using length_fold_update [of "(!) p" "\<lambda>i inv. i"] len by simp
  have left: "ip ! (p ! i) = i" if "i < n" for i
    unfolding ip_def len
  proof (rule fold_update_hit [where f = "(!) p" and v = "\<lambda>i inv. i"])
    show "distinct (map ((!) p) [0..<n])" using assms by (rule isPermutation_distinct_idx)
    show "i \<in> set [0..<n]" using that by simp
    show "p ! i < length (replicate n (0::nat))"
      using assms that by (simp add: isPermutation_nth_less)
  qed simp
  have right: "p ! (ip ! j) = j" if jn: "j < n" for j
  proof -
    obtain i where "i < n" "p ! i = j" using isPermutation_surj [OF assms jn] by blast
    then show ?thesis using left by auto
  qed
  have bound: "ip ! j < n" if jn: "j < n" for j
  proof -
    obtain i where "i < n" "p ! i = j" using isPermutation_surj [OF assms jn] by blast
    then show ?thesis using left by auto
  qed
  have dist: "distinct ip"
    unfolding distinct_conv_nth
  proof (intro allI impI)
    fix a b assume "a < length ip" "b < length ip" "a \<noteq> b"
    then show "ip ! a \<noteq> ip ! b" using right lip by metis
  qed
  have "isPermutation n ip"
    using lip dist bound by (auto simp: isPermutation_def in_set_conv_nth)
  then show ?thesis using inv left right by blast
qed

lemma inner_permutation_loop:
  "pr < length out \<Longrightarrow>
     fold (\<lambda>c out. out[pr := (out ! pr)[q ! c := h c]]) cs out
       = out[pr := fold (\<lambda>c rw. rw[q ! c := h c]) cs (out ! pr)]"
  by (induction cs arbitrary: out) simp_all

lemma applyPermutation_Some:
  assumes g: "squareGrid n g" and p: "isPermutation n p" and q: "isPermutation n q"
  shows "\<exists>g'. applyPermutation g p q = Some g' \<and> squareGrid n g'
           \<and> (\<forall>r<n. \<forall>c<n. g' ! (p ! r) ! (q ! c) = g ! r ! c)"
proof -
  define rowOf where "rowOf r = fold (\<lambda>c rw. rw[q ! c := g ! r ! c]) [0..<n] (replicate n 0)" for r
  define step :: "nat \<Rightarrow> grid \<Rightarrow> grid" where
    "step r = fold (\<lambda>c out. out[p ! r := (out ! (p ! r))[q ! c := g ! r ! c]]) [0..<n]" for r
  define g' where "g' = fold step [0..<n] (replicate n (replicate n 0))"
  have len: "length g = n" "length p = n" "length q = n"
    using g p q by (simp_all add: squareGrid_def isPermutation_def)
  have ap: "applyPermutation g p q = Some g'"
    unfolding g'_def step_def using g p q len
    by (simp add: applyPermutation_def squareGrid_def isPermutation_def)
  have lenRow: "length (fold (\<lambda>c rw. rw[q ! c := g ! r ! c]) [0..<n] rw) = length rw"
    for r and rw :: "int list"
    using length_fold_update [of "(!) q" "\<lambda>c rw. g ! r ! c"] by simp
  have rowOf_nth: "rowOf r ! (q ! c) = g ! r ! c" if "c < n" for r c
    unfolding rowOf_def
  proof (rule fold_update_hit [where f = "(!) q" and v = "\<lambda>c rw. g ! r ! c"])
    show "distinct (map ((!) q) [0..<n])" using q by (rule isPermutation_distinct_idx)
    show "c \<in> set [0..<n]" using that by simp
    show "q ! c < length (replicate n (0::int))" using q that by (simp add: isPermutation_nth_less)
  qed simp
  have step_eq: "step r out = out[p ! r := fold (\<lambda>c rw. rw[q ! c := g ! r ! c]) [0..<n] (out ! (p ! r))]"
    if "p ! r < length out" for r out
    unfolding step_def using that by (rule inner_permutation_loop)
  have stepInv: "length (fold step rs out) = n \<and> (\<forall>rw \<in> set (fold step rs out). length rw = n)"
    if "length out = n" "\<forall>rw \<in> set out. length rw = n" "set rs \<subseteq> {..<n}" for rs out
    using that
  proof (induction rs arbitrary: out)
    case Nil
    then show ?case by simp
  next
    case (Cons r rs)
    have lt: "p ! r < length out" using Cons.prems p by (simp add: isPermutation_nth_less)
    have "length (step r out) = n" using Cons.prems lt by (simp add: step_eq)
    moreover have "\<forall>rw \<in> set (step r out). length rw = n"
    proof
      fix rw assume "rw \<in> set (step r out)"
      then have "rw \<in> insert (fold (\<lambda>c rw. rw[q ! c := g ! r ! c]) [0..<n] (out ! (p ! r))) (set out)"
        using lt set_update_subset_insert by (fastforce simp: step_eq)
      then show "length rw = n" using Cons.prems lt lenRow by auto
    qed
    ultimately show ?case using Cons.IH [of "step r out"] Cons.prems by simp
  qed
  have sq: "squareGrid n g'"
  proof -
    have "length (replicate n (replicate n (0::int))) = n" by simp
    moreover have "\<forall>rw \<in> set (replicate n (replicate n (0::int))). length rw = n" by simp
    moreover have "set [0..<n] \<subseteq> {..<n}" by auto
    ultimately show ?thesis unfolding squareGrid_def g'_def by (rule stepInv)
  qed
  have nthRow: "g' ! (p ! r) = rowOf r" if "r < n" for r
  proof -
    have hit: "fold (\<lambda>r out. out[p ! r := fold (\<lambda>c rw. rw[q ! c := g ! r ! c]) [0..<n] (out ! (p ! r))])
            [0..<n] (replicate n (replicate n 0)) ! (p ! r) = rowOf r"
    proof (rule fold_update_hit [where f = "(!) p"
          and v = "\<lambda>r out. fold (\<lambda>c rw. rw[q ! c := g ! r ! c]) [0..<n] (out ! (p ! r))"])
      show "distinct (map ((!) p) [0..<n])" using p by (rule isPermutation_distinct_idx)
      show "r \<in> set [0..<n]" using that by simp
      show "p ! r < length (replicate n (replicate n (0::int)))"
        using p that by (simp add: isPermutation_nth_less)
      fix ys :: grid
      assume "length ys = length (replicate n (replicate n (0::int)))"
        and "ys ! (p ! r) = replicate n (replicate n 0) ! (p ! r)"
      then show "fold (\<lambda>c rw. rw[q ! c := g ! r ! c]) [0..<n] (ys ! (p ! r)) = rowOf r"
        using p that by (simp add: rowOf_def isPermutation_nth_less)
    qed
    have unf: "fold step rs out
        = fold (\<lambda>r out. out[p ! r := fold (\<lambda>c rw. rw[q ! c := g ! r ! c]) [0..<n] (out ! (p ! r))]) rs out"
      if "length out = n" "set rs \<subseteq> {..<n}" for rs out
      using that
    proof (induction rs arbitrary: out)
      case Nil
      then show ?case by simp
    next
      case (Cons a rs)
      have lt: "p ! a < length out" using Cons.prems p by (simp add: isPermutation_nth_less)
      show ?case using Cons.IH [of "step a out"] Cons.prems lt by (simp add: step_eq)
    qed
    have "set [0..<n] \<subseteq> {..<n}" by auto
    then have "g' = fold (\<lambda>r out. out[p ! r := fold (\<lambda>c rw. rw[q ! c := g ! r ! c]) [0..<n] (out ! (p ! r))])
            [0..<n] (replicate n (replicate n 0))"
      unfolding g'_def by (intro unf) simp_all
    then show ?thesis using hit by simp
  qed
  have "g' ! (p ! r) ! (q ! c) = g ! r ! c" if "r < n" "c < n" for r c
    using that by (simp add: nthRow rowOf_nth)
  with ap sq show ?thesis by blast
qed

lemma applyPermutation_roundtrip:
  assumes g: "squareGrid n g" and p: "isPermutation n p" and q: "isPermutation n q"
    and ap: "applyPermutation g p q = Some g'"
    and ip: "invertPermutation p = Some ip" and iq: "invertPermutation q = Some iq"
  shows "applyPermutation g' ip iq = Some g"
proof -
  obtain ip' where ip': "invertPermutation p = Some ip'" "isPermutation n ip'"
      "\<forall>i<n. ip' ! (p ! i) = i"
    using invertPermutation_Some [OF p] by blast
  obtain iq' where iq': "invertPermutation q = Some iq'" "isPermutation n iq'"
      "\<forall>i<n. iq' ! (q ! i) = i"
    using invertPermutation_Some [OF q] by blast
  have ipP: "isPermutation n ip" "\<forall>i<n. ip ! (p ! i) = i" using ip ip' by simp_all
  have iqP: "isPermutation n iq" "\<forall>i<n. iq ! (q ! i) = i" using iq iq' by simp_all
  obtain h where h: "applyPermutation g p q = Some h" "squareGrid n h"
      "\<forall>r<n. \<forall>c<n. h ! (p ! r) ! (q ! c) = g ! r ! c"
    using applyPermutation_Some [OF g p q] by blast
  then have g': "squareGrid n g'" "\<forall>r<n. \<forall>c<n. g' ! (p ! r) ! (q ! c) = g ! r ! c"
    using ap by simp_all
  obtain k where k: "applyPermutation g' ip iq = Some k" "squareGrid n k"
      "\<forall>r<n. \<forall>c<n. k ! (ip ! r) ! (iq ! c) = g' ! r ! c"
    using applyPermutation_Some [OF g'(1) ipP(1) iqP(1)] by blast
  have cell: "k ! r ! c = g ! r ! c" if "r < n" "c < n" for r c
  proof -
    have pr: "p ! r < n" and qc: "q ! c < n"
      using p q that by (simp_all add: isPermutation_nth_less)
    have "k ! (ip ! (p ! r)) ! (iq ! (q ! c)) = g' ! (p ! r) ! (q ! c)"
      using k(3) pr qc by simp
    then show ?thesis using ipP(2) iqP(2) g'(2) that by simp
  qed
  have "k = g"
  proof (rule nth_equalityI)
    show "length k = length g" using k(2) g by (simp add: squareGrid_def)
    fix r assume r: "r < length k"
    then have rn: "r < n" using k(2) by (simp add: squareGrid_def)
    show "k ! r = g ! r"
    proof (rule nth_equalityI)
      show "length (k ! r) = length (g ! r)"
        using k(2) g rn by (simp add: squareGrid_def)
      fix c assume "c < length (k ! r)"
      then have "c < n" using k(2) rn by (simp add: squareGrid_def)
      then show "k ! r ! c = g ! r ! c" using cell rn by simp
    qed
  qed
  then show ?thesis using k(1) by simp
qed

text \<open>
  C8. For every \<open>n \<times> n\<close> grid and every pair of permutations \<open>p\<close>, \<open>q\<close> of \<open>0..n-1\<close>,
  \<open>applyPermutation\<close> with \<open>p\<close> and \<open>q\<close> followed by \<open>applyPermutation\<close> with
  \<open>invertPermutation p\<close> and \<open>invertPermutation q\<close> gives back the grid, cell for cell.
\<close>

theorem applyPermutation_inverse_roundtrip:
  assumes "squareGrid n g" and "isPermutation n p" and "isPermutation n q"
  shows "\<exists>g' ip iq. applyPermutation g p q = Some g'
           \<and> invertPermutation p = Some ip \<and> invertPermutation q = Some iq
           \<and> applyPermutation g' ip iq = Some g"
proof -
  obtain g' where g': "applyPermutation g p q = Some g'"
    using applyPermutation_Some [OF assms] by blast
  obtain ip where ip: "invertPermutation p = Some ip"
    using invertPermutation_Some [OF assms(2)] by blast
  obtain iq where iq: "invertPermutation q = Some iq"
    using invertPermutation_Some [OF assms(3)] by blast
  show ?thesis
    using applyPermutation_roundtrip [OF assms g' ip iq] g' ip iq by blast
qed

theorem applyPermutation_inverse_roundtrip_witness:
  "squareGrid 4 [[1,2,3,4],[3,4,1,2],[2,1,4,3],[4,3,2,1]]
   \<and> isPermutation 4 [1,0,3,2] \<and> isPermutation 4 [2,3,1,0]
   \<and> applyPermutation [[1,2,3,4],[3,4,1,2],[2,1,4,3],[4,3,2,1]] [1,0,3,2] [2,3,1,0]
       = Some [[2,1,3,4],[4,3,1,2],[1,2,4,3],[3,4,2,1]]
   \<and> invertPermutation [1,0,3,2] = Some [1,0,3,2]
   \<and> invertPermutation [2,3,1,0] = Some [3,2,0,1]
   \<and> applyPermutation [[2,1,3,4],[4,3,1,2],[1,2,4,3],[3,4,2,1]] [1,0,3,2] [3,2,0,1]
       = Some [[1,2,3,4],[3,4,1,2],[2,1,4,3],[4,3,2,1]]"
proof -
  have a: "squareGrid 4 [[1,2,3,4],[3,4,1,2],[2,1,4,3],[4,3,2,1]]" by code_simp
  have b: "isPermutation 4 [1,0,3,2]" by code_simp
  have c: "isPermutation 4 [2,3,1,0]" by code_simp
  have d: "applyPermutation [[1,2,3,4],[3,4,1,2],[2,1,4,3],[4,3,2,1]] [1,0,3,2] [2,3,1,0]
       = Some [[2,1,3,4],[4,3,1,2],[1,2,4,3],[3,4,2,1]]" by code_simp
  have e: "invertPermutation [1,0,3,2] = Some [1,0,3,2]" by code_simp
  have f: "invertPermutation [2,3,1,0] = Some [3,2,0,1]" by code_simp
  obtain g' ip iq where
    "applyPermutation [[1,2,3,4],[3,4,1,2],[2,1,4,3],[4,3,2,1]] [1,0,3,2] [2,3,1,0] = Some g'"
    "invertPermutation [1,0,3,2] = Some ip" "invertPermutation [2,3,1,0] = Some iq"
    "applyPermutation g' ip iq = Some [[1,2,3,4],[3,4,1,2],[2,1,4,3],[4,3,2,1]]"
    using applyPermutation_inverse_roundtrip [OF a b c] by blast
  then have "applyPermutation [[2,1,3,4],[4,3,1,2],[1,2,4,3],[3,4,2,1]] [1,0,3,2] [3,2,0,1]
       = Some [[1,2,3,4],[3,4,1,2],[2,1,4,3],[4,3,2,1]]"
    unfolding d e f by (simp only: option.inject)
  with a b c d e f show ?thesis by (intro conjI)
qed

section \<open>The validator on a complete legal grid\<close>

lemma sqrtInt_Some: "sqrtInt n = Some b \<Longrightarrow> b * b = n"
  unfolding sqrtInt_def by (auto simp: find_Some_iff)

lemma sqrtInt_square: "sqrtInt (b * b) = Some b"
proof -
  have "b < Suc (b * b)" by (cases b) auto
  then have "\<exists>x \<in> set [0..<Suc (b * b)]. x * x = b * b" by auto
  then obtain x where x: "sqrtInt (b * b) = Some x"
    unfolding sqrtInt_def by (cases "List.find (\<lambda>x. x * x = b * b) [0..<Suc (b * b)]") (auto simp: find_None_iff)
  then have "x * x = b * b" by (rule sqrtInt_Some)
  have "x * x < b * b" if "x < b" using that by (simp add: mult_strict_mono)
  moreover have "b * b < x * x" if "b < x" using that by (simp add: mult_strict_mono)
  ultimately have "x = b" using \<open>x * x = b * b\<close> by (metis nat_neq_iff)
  with x show ?thesis by simp
qed

lemma fold_fixed: "(\<And>x. x \<in> set xs \<Longrightarrow> f x a = a) \<Longrightarrow> fold f xs a = a"
  by (induction xs) simp_all

lemma cellAt_square: "squareGrid n g \<Longrightarrow> r < n \<Longrightarrow> c < n \<Longrightarrow> cellAt g r c = Some (g ! r ! c)"
  by (simp add: cellAt_def squareGrid_def)

lemma distinct_map_eq: "distinct (map f xs) \<Longrightarrow> x \<in> set xs \<Longrightarrow> y \<in> set xs \<Longrightarrow> f x = f y \<Longrightarrow> x = y"
  by (auto simp: distinct_map inj_on_def)

lemma box_bounds:
  assumes "b * b = (n::nat)" and "r < n"
  shows "r div b * b \<le> r" and "r < r div b * b + b" and "r div b < b" and "r div b * b + b \<le> n"
proof -
  have b0: "0 < b" using assms by (cases b) auto
  show "r div b * b \<le> r" by (simp add: div_times_less_eq_dividend)
  show "r < r div b * b + b"
    using div_mult_mod_eq [of r b] mod_less_divisor [OF b0, of r] by linarith
  show lt: "r div b < b" using assms b0 by (simp add: less_mult_imp_div_less)
  then have "Suc (r div b) \<le> b" by simp
  then have "Suc (r div b) * b \<le> b * b" by (rule mult_le_mono1)
  then show "r div b * b + b \<le> n" using assms by simp
qed

lemma boxCells_in_boxesOf:
  assumes "sqrtInt n = Some b" and "r < n" and "c < n"
  shows "boxCells n r c \<in> set (boxesOf n)"
proof -
  have bb: "b * b = n" using assms(1) by (rule sqrtInt_Some)
  have "r div b < b" "c div b < b" using box_bounds(3) [OF bb] assms by simp_all
  then show ?thesis using assms(1)
    by (auto simp: boxCells_def boxesOf_def intro!: bexI [of _ "r div b"] image_eqI [of _ _ "c div b"])
qed

lemma boxCells_self:
  assumes "sqrtInt n = Some b" and "r < n" and "c < n"
  shows "(r, c) \<in> set (boxCells n r c)"
proof -
  have bb: "b * b = n" using assms(1) by (rule sqrtInt_Some)
  show ?thesis
    using assms(1) box_bounds(1,2) [OF bb assms(2)] box_bounds(1,2) [OF bb assms(3)]
    by (simp add: boxCells_def)
qed

lemma boxCells_bounds:
  assumes "r < n" and "c < n" and "(r', c') \<in> set (boxCells n r c)"
  shows "r' < n \<and> c' < n"
proof (cases "sqrtInt n")
  case None
  then show ?thesis using assms by (simp add: boxCells_def)
next
  case (Some b)
  have bb: "b * b = n" using Some by (rule sqrtInt_Some)
  show ?thesis
    using assms(3) Some box_bounds(4) [OF bb assms(1)] box_bounds(4) [OF bb assms(2)]
    by (auto simp: boxCells_def)
qed

lemma findConflicts_legal:
  assumes lg: "legalComplete g" and r: "r < length g" and c: "c < length g"
  shows "findConflicts g r c (cellAt g r c) (length g) = []"
proof -
  define n where "n = length g"
  have sq: "squareGrid n g"
    and rng: "\<forall>rw \<in> set g. \<forall>v \<in> set rw. 1 \<le> v \<and> v \<le> int n"
    and rows: "\<forall>rw \<in> set g. distinct rw"
    and cols: "\<forall>c \<in> set [0..<n]. distinct (map (\<lambda>r. g ! r ! c) [0..<n])"
    and boxes: "\<forall>bx \<in> set (boxesOf n). distinct (map (\<lambda>(r, c). g ! r ! c) bx)"
    using lg by (simp_all add: legalComplete_def Let_def n_def)
  have rn: "r < n" and cn: "c < n" using r c by (simp_all add: n_def)
  have cell: "cellAt g r' c' = Some (g ! r' ! c')" if "r' < n" "c' < n" for r' c'
    using sq that by (rule cellAt_square)
  have lenrow: "length (g ! r) = n" using sq rn by (simp add: squareGrid_def)
  have "g ! r \<in> set g" using rn sq by (simp add: squareGrid_def)
  then have vr: "1 \<le> g ! r ! c \<and> g ! r ! c \<le> int n" and dr: "distinct (g ! r)"
    using rng rows lenrow cn by auto
  have rowEmpty: "filter (\<lambda>c'. c' \<noteq> c \<and> cellAt g r c' = cellAt g r c) [0..<n] = []"
  proof -
    have "\<not> (c' \<noteq> c \<and> cellAt g r c' = cellAt g r c)" if "c' < n" for c'
      using that cell rn cn dr lenrow by (auto simp: nth_eq_iff_index_eq)
    then show ?thesis by (auto simp: filter_empty_conv)
  qed
  have colEmpty: "filter (\<lambda>r'. r' \<noteq> r \<and> cellAt g r' c = cellAt g r c) [0..<n] = []"
  proof -
    have d: "distinct (map (\<lambda>r. g ! r ! c) [0..<n])" using cols cn by simp
    have "\<not> (r' \<noteq> r \<and> cellAt g r' c = cellAt g r c)" if "r' < n" for r'
    proof
      assume a: "r' \<noteq> r \<and> cellAt g r' c = cellAt g r c"
      then have "g ! r' ! c = g ! r ! c" using cell that rn cn by simp
      then have "r' = r"
        using distinct_map_eq [OF d, of r' r] that rn by simp
      with a show False by simp
    qed
    then show ?thesis by (auto simp: filter_empty_conv)
  qed
  have boxEmpty: "filter (\<lambda>(r', c'). (r' \<noteq> r \<or> c' \<noteq> c) \<and> cellAt g r' c' = cellAt g r c) (boxCells n r c) = []"
  proof (cases "sqrtInt n")
    case None
    then show ?thesis by (simp add: boxCells_def)
  next
    case (Some b)
    have d: "distinct (map (\<lambda>(r, c). g ! r ! c) (boxCells n r c))"
      using boxes boxCells_in_boxesOf [OF Some rn cn] by blast
    have self: "(r, c) \<in> set (boxCells n r c)" using Some rn cn by (rule boxCells_self)
    have "\<not> ((r' \<noteq> r \<or> c' \<noteq> c) \<and> cellAt g r' c' = cellAt g r c)"
      if mem: "(r', c') \<in> set (boxCells n r c)" for r' c'
    proof
      assume a: "(r' \<noteq> r \<or> c' \<noteq> c) \<and> cellAt g r' c' = cellAt g r c"
      have "r' < n \<and> c' < n" using rn cn mem by (rule boxCells_bounds)
      then have "g ! r' ! c' = g ! r ! c" using a cell rn cn by simp
      then have "(r', c') = (r, c)"
        using distinct_map_eq [OF d mem self] by simp
      with a show False by simp
    qed
    then show ?thesis by (auto simp: filter_empty_conv)
  qed
  show ?thesis
    unfolding n_def [symmetric]
    using vr rowEmpty colEmpty boxEmpty
    by (simp add: findConflicts_def cell [OF rn cn])
qed

lemma isGridComplete_legal: "legalComplete g \<Longrightarrow> isGridComplete g"
proof -
  assume "legalComplete g"
  then have "\<forall>rw \<in> set g. \<forall>v \<in> set rw. 1 \<le> v"
    by (simp add: legalComplete_def Let_def)
  then have "\<forall>rw \<in> set g. \<forall>v \<in> set rw. v \<noteq> 0" by fastforce
  then show ?thesis by (simp add: isGridComplete_def list_all_iff)
qed

text \<open>
  C6. For every complete grid that is legal under the row, column and box constraints,
  \<open>validatePuzzle\<close> (the \<open>validateGrid\<close> of the specification) returns \<open>isValid = true\<close>,
  \<open>isComplete = true\<close>, no error and no conflicting cell.
\<close>

theorem validatePuzzle_legalComplete:
  assumes "legalComplete g"
  shows "validatePuzzle g = \<lparr>isValid = True, errors = [], isComplete = True, conflictingCells = []\<rparr>"
proof -
  define n where "n = length g"
  have sq: "squareGrid n g"
    and rng: "\<forall>rw \<in> set g. \<forall>v \<in> set rw. 1 \<le> v \<and> v \<le> int n"
    using assms by (simp_all add: legalComplete_def Let_def n_def)
  have step: "validateCell g n rc ([], []) = ([], [])" if "rc \<in> set (List.product [0..<n] [0..<n])" for rc
  proof -
    obtain r c where rc: "rc = (r, c)" by (cases rc)
    then have rn: "r < n" and cn: "c < n" using that by simp_all
    have "g ! r \<in> set g" "length (g ! r) = n" using rn sq by (simp_all add: squareGrid_def)
    then have "g ! r ! c \<in> set (g ! r)" using cn by simp
    then have "g ! r ! c \<noteq> 0" using rng \<open>g ! r \<in> set g\<close> by fastforce
    then have "cellAt g r c \<noteq> Some 0" using cellAt_square [OF sq rn cn] by simp
    moreover have "findConflicts g r c (cellAt g r c) n = []"
      using findConflicts_legal [OF assms] rn cn by (simp add: n_def)
    ultimately show ?thesis by (simp add: validateCell_def rc)
  qed
  have "fold (validateCell g n) (List.product [0..<n] [0..<n]) ([], []) = ([], [])"
    by (rule fold_fixed) (rule step)
  then show ?thesis
    using isGridComplete_legal [OF assms] by (simp add: validatePuzzle_def n_def [symmetric])
qed


theorem validatePuzzle_legalComplete_witness:
  "legalComplete
     [[5,3,4,6,7,8,9,1,2],[6,7,2,1,9,5,3,4,8],[1,9,8,3,4,2,5,6,7],
      [8,5,9,7,6,1,4,2,3],[4,2,6,8,5,3,7,9,1],[7,1,3,9,2,4,8,5,6],
      [9,6,1,5,3,7,2,8,4],[2,8,7,4,1,9,6,3,5],[3,4,5,2,8,6,1,7,9]]
   \<and> validatePuzzle
     [[5,3,4,6,7,8,9,1,2],[6,7,2,1,9,5,3,4,8],[1,9,8,3,4,2,5,6,7],
      [8,5,9,7,6,1,4,2,3],[4,2,6,8,5,3,7,9,1],[7,1,3,9,2,4,8,5,6],
      [9,6,1,5,3,7,2,8,4],[2,8,7,4,1,9,6,3,5],[3,4,5,2,8,6,1,7,9]]
     = \<lparr>isValid = True, errors = [], isComplete = True, conflictingCells = []\<rparr>"
proof -
  have a: "legalComplete
     [[5,3,4,6,7,8,9,1,2],[6,7,2,1,9,5,3,4,8],[1,9,8,3,4,2,5,6,7],
      [8,5,9,7,6,1,4,2,3],[4,2,6,8,5,3,7,9,1],[7,1,3,9,2,4,8,5,6],
      [9,6,1,5,3,7,2,8,4],[2,8,7,4,1,9,6,3,5],[3,4,5,2,8,6,1,7,9]]"
    by code_simp
  show ?thesis using validatePuzzle_legalComplete [OF a] a by (intro conjI)
qed

section \<open>The bounded search of the solver\<close>

lemma scanFor_Inr:
  "(\<And>r c. (r, c) \<in> set ps \<Longrightarrow> r < length g) \<Longrightarrow> \<exists>res. scanFor g v ps = Inr res"
  by (induction g v ps rule: scanFor.induct) (auto simp: not_le)

lemma scanFor_Some:
  "scanFor g v ps = Inr (Some (r, c)) \<Longrightarrow> (r, c) \<in> set ps \<and> cellAt g r c = Some v"
  by (induction g v ps rule: scanFor.induct) (auto split: if_splits)

lemma scanFor_None:
  "scanFor g v ps = Inr None \<Longrightarrow> (r, c) \<in> set ps \<Longrightarrow> cellAt g r c \<noteq> Some v"
  by (induction g v ps rule: scanFor.induct) (auto split: if_splits)

lemma isValidMove_Inr:
  assumes "sz \<le> length g" and "r < sz" and "c < sz"
  shows "\<exists>b. isValidMove g r c num sz = Inr b"
proof -
  have "r' < length g"
    if "(r', c') \<in> set (map (Pair r) [0..<sz] @ map (\<lambda>r'. (r', c)) [0..<sz] @ boxCells sz r c)"
    for r' c'
    using that assms boxCells_bounds [of r sz c r' c'] by auto
  then obtain res where
    "scanFor g num (map (Pair r) [0..<sz] @ map (\<lambda>r'. (r', c)) [0..<sz] @ boxCells sz r c) = Inr res"
    using scanFor_Inr by blast
  then show ?thesis by (simp add: isValidMove_def)
qed

lemma findEmptyCell_cases:
  assumes "sz \<le> length g"
  obtains (none) "findEmptyCell g sz = Inr None" "countEmpty sz g = 0"
  | (some) r c where "findEmptyCell g sz = Inr (Some (r, c))" "r < sz" "c < sz" "cellAt g r c = Some 0"
proof -
  have "r < length g" if "(r, c) \<in> set (List.product [0..<sz] [0..<sz])" for r c
    using that assms by auto
  then obtain res where res: "scanFor g 0 (List.product [0..<sz] [0..<sz]) = Inr res"
    using scanFor_Inr by blast
  show thesis
  proof (cases res)
    case None
    then have "\<forall>rc \<in> set (List.product [0..<sz] [0..<sz]). \<not> (case rc of (r, c) \<Rightarrow> cellAt g r c = Some 0)"
      using scanFor_None res by fastforce
    then have "countEmpty sz g = 0"
      unfolding countEmpty_def by (simp add: filter_empty_conv)
    then show ?thesis using none res None by (simp add: findEmptyCell_def)
  next
    case (Some rc)
    obtain r c where rc: "rc = (r, c)" by (cases rc)
    have eq: "scanFor g 0 (List.product [0..<sz] [0..<sz]) = Inr (Some (r, c))"
      using res Some rc by simp
    have "(r, c) \<in> set (List.product [0..<sz] [0..<sz]) \<and> cellAt g r c = Some 0"
      using scanFor_Some [OF eq] .
    then have "r < sz" "c < sz" "cellAt g r c = Some 0" by simp_all
    then show ?thesis using some [of r c] res Some rc by (simp add: findEmptyCell_def)
  qed
qed

lemma length_setCell [simp]: "length (setCell g r c v) = length g"
  by (simp add: setCell_def)

lemma setCell_restore: "cellAt g r c = Some 0 \<Longrightarrow> setCell (setCell g r c v) r c 0 = g"
proof -
  assume "cellAt g r c = Some 0"
  then have r: "r < length g" and z: "g ! r ! c = 0"
    by (simp_all add: cellAt_def split: if_splits)
  have "(g ! r)[c := 0] = g ! r" using z list_update_id [of "g ! r" c] by simp
  then show ?thesis using r by (simp add: setCell_def)
qed

lemma cellAt_setCell_other:
  "(r', c') \<noteq> (r, c) \<Longrightarrow> cellAt (setCell g r c v) r' c' = cellAt g r' c'"
  by (cases "r' = r") (auto simp: setCell_def cellAt_def)

lemma filter_length_change_one:
  "distinct xs \<Longrightarrow> (\<And>x. x \<in> set xs \<Longrightarrow> x \<noteq> a \<Longrightarrow> P x = Q x)
     \<Longrightarrow> length (filter P xs) \<le> Suc (length (filter Q xs))"
proof (induction xs)
  case Nil
  then show ?case by simp
next
  case (Cons x xs)
  show ?case
  proof (cases "x = a")
    case True
    then have "a \<notin> set xs" using Cons.prems(1) by simp
    then have "filter P xs = filter Q xs" using Cons.prems(2) by (intro filter_cong) auto
    then show ?thesis by simp
  next
    case False
    then have "P x = Q x" using Cons.prems(2) by simp
    moreover have "length (filter P xs) \<le> Suc (length (filter Q xs))"
      using Cons.IH Cons.prems by simp
    ultimately show ?thesis by simp
  qed
qed

lemma countEmpty_setCell: "countEmpty sz g \<le> Suc (countEmpty sz (setCell g r c v))"
  unfolding countEmpty_def
proof (rule filter_length_change_one [where a = "(r, c)"])
  show "distinct (List.product [0..<sz] [0..<sz])" by (simp add: distinct_product)
  fix x :: "nat \<times> nat" assume "x \<noteq> (r, c)"
  then show "(case x of (r, c) \<Rightarrow> cellAt g r c = Some 0)
           = (case x of (r', c') \<Rightarrow> cellAt (setCell g r c v) r' c' = Some 0)"
    by (cases x) (simp add: cellAt_setCell_other)
qed

lemma findAll_frame:
  shows "sz \<le> length g \<Longrightarrow>
      \<exists>sols' k'. findAllSolutionsWithTimeout now sz m st tmo depth (g, sols, k) = Inr (g, sols', k')
         \<and> (81 < countEmpty sz g + depth \<longrightarrow> sols' = sols)"
    and "sz \<le> length g \<Longrightarrow> r < sz \<Longrightarrow> c < sz \<Longrightarrow> cellAt g r c = Some 0 \<Longrightarrow>
      \<exists>sols' k'. findAllLoop now sz m st tmo depth r c num (g, sols, k) = Inr (g, sols', k')
         \<and> (81 < countEmpty sz g + depth \<longrightarrow> sols' = sols)"
proof (induction now sz m st tmo depth "(g, sols, k)" and now sz m st tmo depth r c num "(g, sols, k)"
    arbitrary: g sols k and g sols k rule: findAllSolutionsWithTimeout_findAllLoop.induct)
  case (1 now sz m st tmo depth g sols k)
  show ?case
  proof (cases "m \<le> length sols \<or> 81 < depth")
    case True
    then show ?thesis by (subst findAllSolutionsWithTimeout.simps) simp
  next
    case stop: False
    show ?thesis
    proof (cases "tmo < now k - st")
      case True
      then show ?thesis using stop by (subst findAllSolutionsWithTimeout.simps) simp
    next
      case clock: False
      from "1.prems" show ?thesis
      proof (cases rule: findEmptyCell_cases)
        case none
        then show ?thesis using stop clock by (subst findAllSolutionsWithTimeout.simps) simp
      next
        case (some r c)
        have "\<exists>sols' k'. findAllLoop now sz m st tmo depth r c 1 (g, sols, Suc k) = Inr (g, sols', k')
               \<and> (81 < countEmpty sz g + depth \<longrightarrow> sols' = sols)"
          using "1.hyps" [OF stop clock some(1) refl refl "1.prems" some(2,3,4)] .
        then show ?thesis using stop clock some(1) by (subst findAllSolutionsWithTimeout.simps) simp
      qed
    qed
  qed
next
  case (2 now sz m st tmo depth r c num g sols k)
  note prems = "2.prems"
  show ?case
  proof (cases "sz < num")
    case True
    then show ?thesis by (subst findAllLoop.simps) simp
  next
    case more: False
    obtain b where b: "isValidMove g r c (int num) sz = Inr b"
      using isValidMove_Inr [OF prems(1,2,3)] by blast
    show ?thesis
    proof (cases b)
      case False
      then have bF: "isValidMove g r c (int num) sz = Inr False" using b by simp
      have "\<exists>sols' k'. findAllLoop now sz m st tmo depth r c (Suc num) (g, sols, k) = Inr (g, sols', k')
             \<and> (81 < countEmpty sz g + depth \<longrightarrow> sols' = sols)"
        using "2.hyps"(3) [OF more bF refl prems] .
      then show ?thesis using more bF by (subst findAllLoop.simps) simp
    next
      case True
      then have bT: "isValidMove g r c (int num) sz = Inr True" using b by simp
      have len: "sz \<le> length (setCell g r c (int num))" using prems(1) by simp
      obtain sols1 k1 where rec:
        "findAllSolutionsWithTimeout now sz m st tmo (Suc depth) (setCell g r c (int num), sols, k)
           = Inr (setCell g r c (int num), sols1, k1)"
        and keep1: "81 < countEmpty sz (setCell g r c (int num)) + Suc depth \<longrightarrow> sols1 = sols"
        using "2.hyps"(1) [OF more bT refl len] by blast
      have restore: "setCell (setCell g r c (int num)) r c 0 = g"
        using prems(4) by (rule setCell_restore)
      have keep: "81 < countEmpty sz g + depth \<longrightarrow> sols1 = sols"
        using keep1 countEmpty_setCell [of sz g r c "int num"] by linarith
      show ?thesis
      proof (cases "m \<le> length sols1 \<or> tmo < now k1 - st")
        case True
        then show ?thesis using more bT rec restore keep
          by (subst findAllLoop.simps) auto
      next
        case False
        then have f1: "\<not> m \<le> length sols1" and f2: "\<not> tmo < now k1 - st" by simp_all
        have "\<exists>sols' k'. findAllLoop now sz m st tmo depth r c (Suc num)
                (setCell (setCell g r c (int num)) r c 0, sols1, Suc k1)
                  = Inr (setCell (setCell g r c (int num)) r c 0, sols', k')
               \<and> (81 < countEmpty sz (setCell (setCell g r c (int num)) r c 0) + depth \<longrightarrow> sols' = sols1)"
          using "2.hyps"(2) [OF more bT refl rec refl refl f1 f2] prems unfolding restore by blast
        then show ?thesis using more bT rec f1 f2 keep unfolding restore
          by (subst findAllLoop.simps) (auto simp: restore)
      qed
    qed
  qed
qed

lemma countEmpty_countClues: "countEmpty sz g + countClues sz g = sz * sz"
proof -
  have "(\<lambda>rc. \<not> (case rc of (r, c) \<Rightarrow> cellAt g r c = Some 0))
          = (\<lambda>(r, c). cellAt g r c \<noteq> Some 0)" by auto
  then show ?thesis
    unfolding countEmpty_def countClues_def
    using sum_length_filter_compl [of "\<lambda>(r, c). cellAt g r c = Some 0" "List.product [0..<sz] [0..<sz]"]
    by simp
qed

text \<open>
  C7. For every grid with more than 81 empty cells, \<open>hasUniqueSolution\<close> returns false,
  whatever the clock does and however many completions the grid has: the recursion gives
  up at depth 82, before the last empty cell is filled. In particular this holds for every
  grid of 16 rows with fewer than 175 clues.
\<close>

theorem hasUniqueSolution_over_81_empty:
  "(81 < countEmpty (length g) g \<longrightarrow> hasUniqueSolution now g = Inr False)
   \<and> (length g = 16 \<and> countClues 16 g < 175 \<longrightarrow> hasUniqueSolution now g = Inr False)"
proof -
  have main: "hasUniqueSolution now g = Inr False" if "81 < countEmpty (length g) g"
  proof -
    obtain sols' k' where
      "findAllSolutionsWithTimeout now (length g) 2 (now 0) 5000 0 (g, [], 1) = Inr (g, sols', k')"
      "81 < countEmpty (length g) g + 0 \<longrightarrow> sols' = []"
      using findAll_frame(1) [of "length g" g now 2 "now 0" 5000 0 "[]" 1] by blast
    then show ?thesis using that by (simp add: hasUniqueSolution_def)
  qed
  have "81 < countEmpty (length g) g" if "length g = 16" "countClues 16 g < 175"
    using that countEmpty_countClues [of 16 g] by simp
  with main show ?thesis by blast
qed

theorem hasUniqueSolution_over_81_empty_witness:
  "81 < countEmpty (length (replicate 16 (replicate 16 (0::int)))) (replicate 16 (replicate 16 0))
   \<and> length (replicate 16 (replicate 16 (0::int))) = 16
   \<and> countClues 16 (replicate 16 (replicate 16 0)) < 175
   \<and> hasUniqueSolution (\<lambda>k. 0) (replicate 16 (replicate 16 0)) = Inr False"
proof -
  have a: "81 < countEmpty (length (replicate 16 (replicate 16 (0::int)))) (replicate 16 (replicate 16 0))"
    by code_simp
  have b: "countClues 16 (replicate 16 (replicate 16 0)) < 175" by code_simp
  have "hasUniqueSolution (\<lambda>k. 0) (replicate 16 (replicate 16 0)) = Inr False"
    using hasUniqueSolution_over_81_empty [of "replicate 16 (replicate 16 0)" "\<lambda>k. 0"] a by blast
  with a b show ?thesis by simp
qed

section \<open>Timing out\<close>

lemma findAll_grows:
  shows "findAllSolutionsWithTimeout now sz m st tmo depth (g, sols, k) = Inr (g', sols', k')
      \<Longrightarrow> (\<exists>rest. sols' = sols @ rest) \<and> k \<le> k'"
    and "findAllLoop now sz m st tmo depth r c num (g, sols, k) = Inr (g', sols', k')
      \<Longrightarrow> (\<exists>rest. sols' = sols @ rest) \<and> k \<le> k'"
proof (induction now sz m st tmo depth "(g, sols, k)" and now sz m st tmo depth r c num "(g, sols, k)"
    arbitrary: g sols k g' sols' k' and g sols k g' sols' k'
    rule: findAllSolutionsWithTimeout_findAllLoop.induct)
  case (1 now sz m st tmo depth g sols k)
  note run = "1.prems"
  show ?case
  proof (cases "m \<le> length sols \<or> 81 < depth")
    case True
    then have "findAllSolutionsWithTimeout now sz m st tmo depth (g, sols, k) = Inr (g, sols, k)"
      by (subst findAllSolutionsWithTimeout.simps) simp
    then show ?thesis using run by simp
  next
    case stop: False
    show ?thesis
    proof (cases "tmo < now k - st")
      case True
      then have "findAllSolutionsWithTimeout now sz m st tmo depth (g, sols, k) = Inr (g, sols, Suc k)"
        using stop by (subst findAllSolutionsWithTimeout.simps) simp
      then show ?thesis using run by simp
    next
      case clock: False
      show ?thesis
      proof (cases "findEmptyCell g sz")
        case (Inl e)
        then have "findAllSolutionsWithTimeout now sz m st tmo depth (g, sols, k) = Inl e"
          using stop clock by (subst findAllSolutionsWithTimeout.simps) simp
        then show ?thesis using run by simp
      next
        case (Inr found)
        show ?thesis
        proof (cases found)
          case None
          then have "findAllSolutionsWithTimeout now sz m st tmo depth (g, sols, k)
                       = Inr (g, sols @ [g], Suc k)"
            using stop clock Inr by (subst findAllSolutionsWithTimeout.simps) simp
          then show ?thesis using run by simp
        next
          case (Some rc)
          obtain r c where rc: "rc = (r, c)" by (cases rc)
          have fe: "findEmptyCell g sz = Inr (Some (r, c))" using Inr Some rc by simp
          have "findAllSolutionsWithTimeout now sz m st tmo depth (g, sols, k)
                  = findAllLoop now sz m st tmo depth r c 1 (g, sols, Suc k)"
            using stop clock fe by (subst findAllSolutionsWithTimeout.simps) simp
          then have "findAllLoop now sz m st tmo depth r c 1 (g, sols, Suc k) = Inr (g', sols', k')"
            using run by simp
          then have "(\<exists>rest. sols' = sols @ rest) \<and> Suc k \<le> k'"
            by (rule "1.hyps" [OF stop clock fe refl refl])
          then show ?thesis by auto
        qed
      qed
    qed
  qed
next
  case (2 now sz m st tmo depth r c num g sols k)
  note run = "2.prems"
  show ?case
  proof (cases "sz < num")
    case True
    then have "findAllLoop now sz m st tmo depth r c num (g, sols, k) = Inr (g, sols, k)"
      by (subst findAllLoop.simps) simp
    then show ?thesis using run by simp
  next
    case more: False
    show ?thesis
    proof (cases "isValidMove g r c (int num) sz")
      case (Inl e)
      then have "findAllLoop now sz m st tmo depth r c num (g, sols, k) = Inl e"
        using more by (subst findAllLoop.simps) simp
      then show ?thesis using run by simp
    next
      case (Inr b)
      show ?thesis
      proof (cases b)
        case False
        then have bF: "isValidMove g r c (int num) sz = Inr False" using Inr by simp
        have "findAllLoop now sz m st tmo depth r c num (g, sols, k)
                = findAllLoop now sz m st tmo depth r c (Suc num) (g, sols, k)"
          using more bF by (subst findAllLoop.simps) simp
        then have "findAllLoop now sz m st tmo depth r c (Suc num) (g, sols, k) = Inr (g', sols', k')"
          using run by simp
        then show ?thesis by (rule "2.hyps"(3) [OF more bF refl])
      next
        case True
        then have bT: "isValidMove g r c (int num) sz = Inr True" using Inr by simp
        show ?thesis
        proof (cases "findAllSolutionsWithTimeout now sz m st tmo (Suc depth)
                        (setCell g r c (int num), sols, k)")
          case (Inl e)
          then have "findAllLoop now sz m st tmo depth r c num (g, sols, k) = Inl e"
            using more bT by (subst findAllLoop.simps) simp
          then show ?thesis using run by simp
        next
          case (Inr res)
          obtain ga sa ka where res: "res = (ga, sa, ka)" by (cases res)
          have rec: "findAllSolutionsWithTimeout now sz m st tmo (Suc depth)
                        (setCell g r c (int num), sols, k) = Inr (ga, sa, ka)"
            using Inr res by simp
          have g1: "(\<exists>rest. sa = sols @ rest) \<and> k \<le> ka"
            using rec by (rule "2.hyps"(1) [OF more bT refl])
          show ?thesis
          proof (cases "m \<le> length sa")
            case True
            then have "findAllLoop now sz m st tmo depth r c num (g, sols, k)
                         = Inr (setCell ga r c 0, sa, ka)"
              using more bT rec by (subst findAllLoop.simps) simp
            then show ?thesis using run g1 by simp
          next
            case cap: False
            show ?thesis
            proof (cases "tmo < now ka - st")
              case True
              then have "findAllLoop now sz m st tmo depth r c num (g, sols, k)
                           = Inr (setCell ga r c 0, sa, Suc ka)"
                using more bT rec cap by (subst findAllLoop.simps) simp
              then show ?thesis using run g1 by auto
            next
              case False
              then have "findAllLoop now sz m st tmo depth r c num (g, sols, k)
                           = findAllLoop now sz m st tmo depth r c (Suc num) (setCell ga r c 0, sa, Suc ka)"
                using more bT rec cap by (subst findAllLoop.simps) simp
              then have "findAllLoop now sz m st tmo depth r c (Suc num) (setCell ga r c 0, sa, Suc ka)
                           = Inr (g', sols', k')"
                using run by simp
              then have "(\<exists>rest. sols' = sa @ rest) \<and> Suc ka \<le> k'"
                by (rule "2.hyps"(2) [OF more bT refl rec refl refl cap False])
              then show ?thesis using g1 by auto
            qed
          qed
        qed
      qed
    qed
  qed
qed

lemma findAll_sim:
  shows "\<forall>i j. i \<le> j \<longrightarrow> now i \<le> now j \<Longrightarrow> 0 \<le> tmo \<Longrightarrow> sz \<le> length g \<Longrightarrow>
      findAllSolutionsWithTimeout now sz m st tmo depth (g, sols, k) = Inr (g, s1, k1) \<Longrightarrow>
      findAllSolutionsWithTimeout (\<lambda>_. 0) sz m 0 tmo depth (g, sols, j) = Inr (g, s2, j2) \<Longrightarrow>
      (\<exists>rest. s2 = s1 @ rest) \<and> (s1 = s2 \<or> (k < k1 \<and> tmo < now (k1 - 1) - st))"
    and "\<forall>i j. i \<le> j \<longrightarrow> now i \<le> now j \<Longrightarrow> 0 \<le> tmo \<Longrightarrow> sz \<le> length g \<Longrightarrow>
      r < sz \<Longrightarrow> c < sz \<Longrightarrow> cellAt g r c = Some 0 \<Longrightarrow>
      findAllLoop now sz m st tmo depth r c num (g, sols, k) = Inr (g, s1, k1) \<Longrightarrow>
      findAllLoop (\<lambda>_. 0) sz m 0 tmo depth r c num (g, sols, j) = Inr (g, s2, j2) \<Longrightarrow>
      (\<exists>rest. s2 = s1 @ rest) \<and> (s1 = s2 \<or> (k < k1 \<and> tmo < now (k1 - 1) - st))"
proof (induction now sz m st tmo depth "(g, sols, k)" and now sz m st tmo depth r c num "(g, sols, k)"
    arbitrary: g sols k s1 k1 j s2 j2 and g sols k s1 k1 j s2 j2
    rule: findAllSolutionsWithTimeout_findAllLoop.induct)
  case (1 now sz m st tmo depth g sols k)
  note mono = "1.prems"(1) and tmo = "1.prems"(2) and len = "1.prems"(3)
    and runN = "1.prems"(4) and runV = "1.prems"(5)
  show ?case
  proof (cases "m \<le> length sols \<or> 81 < depth")
    case True
    then have "findAllSolutionsWithTimeout now sz m st tmo depth (g, sols, k) = Inr (g, sols, k)"
      and "findAllSolutionsWithTimeout (\<lambda>_. 0) sz m 0 tmo depth (g, sols, j) = Inr (g, sols, j)"
      by (subst findAllSolutionsWithTimeout.simps, simp)+
    then show ?thesis using runN runV by simp
  next
    case stop: False
    show ?thesis
    proof (cases "tmo < now k - st")
      case True
      then have "findAllSolutionsWithTimeout now sz m st tmo depth (g, sols, k) = Inr (g, sols, Suc k)"
        using stop by (subst findAllSolutionsWithTimeout.simps) simp
      then have "s1 = sols" "k1 = Suc k" using runN by simp_all
      moreover have "\<exists>rest. s2 = sols @ rest" using findAll_grows(1) [OF runV] by blast
      ultimately show ?thesis using True by simp
    next
      case clock: False
      from len show ?thesis
      proof (cases rule: findEmptyCell_cases)
        case none
        have "findAllSolutionsWithTimeout now sz m st tmo depth (g, sols, k) = Inr (g, sols @ [g], Suc k)"
          using stop clock none(1) by (subst findAllSolutionsWithTimeout.simps) simp
        moreover have "findAllSolutionsWithTimeout (\<lambda>_. 0) sz m 0 tmo depth (g, sols, j)
                         = Inr (g, sols @ [g], Suc j)"
          using stop tmo none(1) by (subst findAllSolutionsWithTimeout.simps) simp
        ultimately show ?thesis using runN runV by simp
      next
        case (some r c)
        have "findAllSolutionsWithTimeout now sz m st tmo depth (g, sols, k)
                = findAllLoop now sz m st tmo depth r c 1 (g, sols, Suc k)"
          using stop clock some(1) by (subst findAllSolutionsWithTimeout.simps) simp
        then have a: "findAllLoop now sz m st tmo depth r c 1 (g, sols, Suc k) = Inr (g, s1, k1)"
          using runN by simp
        have "findAllSolutionsWithTimeout (\<lambda>_. 0) sz m 0 tmo depth (g, sols, j)
                = findAllLoop (\<lambda>_. 0) sz m 0 tmo depth r c 1 (g, sols, Suc j)"
          using stop tmo some(1) by (subst findAllSolutionsWithTimeout.simps) simp
        then have b: "findAllLoop (\<lambda>_. 0) sz m 0 tmo depth r c 1 (g, sols, Suc j) = Inr (g, s2, j2)"
          using runV by simp
        have "(\<exists>rest. s2 = s1 @ rest) \<and> (s1 = s2 \<or> (Suc k < k1 \<and> tmo < now (k1 - 1) - st))"
          using "1.hyps" [OF stop clock some(1) refl refl mono tmo len some(2,3,4) a b] .
        then show ?thesis by auto
      qed
    qed
  qed
next
  case (2 now sz m st tmo depth r c num g sols k)
  note mono = "2.prems"(1) and tmo = "2.prems"(2) and len = "2.prems"(3)
    and rc = "2.prems"(4,5,6) and runN = "2.prems"(7) and runV = "2.prems"(8)
  show ?case
  proof (cases "sz < num")
    case True
    then have "findAllLoop now sz m st tmo depth r c num (g, sols, k) = Inr (g, sols, k)"
      and "findAllLoop (\<lambda>_. 0) sz m 0 tmo depth r c num (g, sols, j) = Inr (g, sols, j)"
      by (subst findAllLoop.simps, simp)+
    then show ?thesis using runN runV by simp
  next
    case more: False
    obtain b where b: "isValidMove g r c (int num) sz = Inr b"
      using isValidMove_Inr [OF len rc(1,2)] by blast
    show ?thesis
    proof (cases b)
      case False
      then have bF: "isValidMove g r c (int num) sz = Inr False" using b by simp
      have "findAllLoop now sz m st tmo depth r c num (g, sols, k)
              = findAllLoop now sz m st tmo depth r c (Suc num) (g, sols, k)"
        using more bF by (subst findAllLoop.simps) simp
      then have a: "findAllLoop now sz m st tmo depth r c (Suc num) (g, sols, k) = Inr (g, s1, k1)"
        using runN by simp
      have "findAllLoop (\<lambda>_. 0) sz m 0 tmo depth r c num (g, sols, j)
              = findAllLoop (\<lambda>_. 0) sz m 0 tmo depth r c (Suc num) (g, sols, j)"
        using more bF by (subst findAllLoop.simps) simp
      then have v: "findAllLoop (\<lambda>_. 0) sz m 0 tmo depth r c (Suc num) (g, sols, j) = Inr (g, s2, j2)"
        using runV by simp
      show ?thesis using "2.hyps"(3) [OF more bF refl mono tmo len rc a v] .
    next
      case True
      then have bT: "isValidMove g r c (int num) sz = Inr True" using b by simp
      define g1 where "g1 = setCell g r c (int num)"
      have len1: "sz \<le> length g1" using len by (simp add: g1_def)
      have restore: "setCell g1 r c 0 = g" unfolding g1_def using rc(3) by (rule setCell_restore)
      obtain sa ka where recN:
        "findAllSolutionsWithTimeout now sz m st tmo (Suc depth) (g1, sols, k) = Inr (g1, sa, ka)"
        using findAll_frame(1) [OF len1] by blast
      obtain sb jb where recV:
        "findAllSolutionsWithTimeout (\<lambda>_. 0) sz m 0 tmo (Suc depth) (g1, sols, j) = Inr (g1, sb, jb)"
        using findAll_frame(1) [OF len1] by blast
      have kka: "k \<le> ka" using findAll_grows(1) [OF recN] by simp
      have ih1: "(\<exists>rest. sb = sa @ rest) \<and> (sa = sb \<or> (k < ka \<and> tmo < now (ka - 1) - st))"
        using "2.hyps"(1) [OF more bT refl mono tmo len1 [unfolded g1_def]
            recN [unfolded g1_def] recV [unfolded g1_def]] .
      have lenab: "length sa \<le> length sb" using ih1 by auto
      show ?thesis
      proof (cases "m \<le> length sa")
        case True
        have "findAllLoop now sz m st tmo depth r c num (g, sols, k) = Inr (g, sa, ka)"
          using more bT recN [unfolded g1_def] True restore [unfolded g1_def]
          by (subst findAllLoop.simps) simp
        moreover have "findAllLoop (\<lambda>_. 0) sz m 0 tmo depth r c num (g, sols, j) = Inr (g, sb, jb)"
          using more bT recV [unfolded g1_def] True lenab restore [unfolded g1_def]
          by (subst findAllLoop.simps) simp
        ultimately have "s1 = sa" "k1 = ka" "s2 = sb" using runN runV by simp_all
        then show ?thesis using ih1 by simp
      next
        case cap: False
        show ?thesis
        proof (cases "tmo < now ka - st")
          case True
          have "findAllLoop now sz m st tmo depth r c num (g, sols, k) = Inr (g, sa, Suc ka)"
            using more bT recN [unfolded g1_def] cap True restore [unfolded g1_def]
            by (subst findAllLoop.simps) simp
          then have s1: "s1 = sa" "k1 = Suc ka" using runN by simp_all
          have "\<exists>rest. s2 = sb @ rest"
          proof (cases "m \<le> length sb")
            case True
            have "findAllLoop (\<lambda>_. 0) sz m 0 tmo depth r c num (g, sols, j) = Inr (g, sb, jb)"
              using more bT recV [unfolded g1_def] True restore [unfolded g1_def]
              by (subst findAllLoop.simps) simp
            then show ?thesis using runV by simp
          next
            case False
            have "findAllLoop (\<lambda>_. 0) sz m 0 tmo depth r c num (g, sols, j)
                    = findAllLoop (\<lambda>_. 0) sz m 0 tmo depth r c (Suc num) (g, sb, Suc jb)"
              using more bT recV [unfolded g1_def] False tmo restore [unfolded g1_def]
              by (subst findAllLoop.simps) simp
            then have "findAllLoop (\<lambda>_. 0) sz m 0 tmo depth r c (Suc num) (g, sb, Suc jb) = Inr (g, s2, j2)"
              using runV by simp
            then show ?thesis using findAll_grows(2) by blast
          qed
          then have "\<exists>rest. s2 = sa @ rest" using ih1 by auto
          then show ?thesis using s1 True kka by simp
        next
          case clock: False
          have same: "sa = sb"
          proof (rule ccontr)
            assume "sa \<noteq> sb"
            then have e: "k < ka" "tmo < now (ka - 1) - st" using ih1 by simp_all
            have "now (ka - 1) \<le> now ka" using mono by simp
            then show False using e clock by linarith
          qed
          have "findAllLoop now sz m st tmo depth r c num (g, sols, k)
                  = findAllLoop now sz m st tmo depth r c (Suc num) (g, sa, Suc ka)"
            using more bT recN [unfolded g1_def] cap clock restore [unfolded g1_def]
            by (subst findAllLoop.simps) simp
          then have a: "findAllLoop now sz m st tmo depth r c (Suc num) (setCell g1 r c 0, sa, Suc ka)
                          = Inr (setCell g1 r c 0, s1, k1)"
            using runN restore by simp
          have "findAllLoop (\<lambda>_. 0) sz m 0 tmo depth r c num (g, sols, j)
                  = findAllLoop (\<lambda>_. 0) sz m 0 tmo depth r c (Suc num) (g, sa, Suc jb)"
            using more bT recV [unfolded g1_def] cap same tmo restore [unfolded g1_def]
            by (subst findAllLoop.simps) simp
          then have v: "findAllLoop (\<lambda>_. 0) sz m 0 tmo depth r c (Suc num) (setCell g1 r c 0, sa, Suc jb)
                          = Inr (setCell g1 r c 0, s2, j2)"
            using runV restore by simp
          have len2: "sz \<le> length (setCell g1 r c 0)" using len restore by simp
          have cz: "cellAt (setCell g1 r c 0) r c = Some 0" using rc(3) restore by simp
          have "(\<exists>rest. s2 = s1 @ rest) \<and> (s1 = s2 \<or> (Suc ka < k1 \<and> tmo < now (k1 - 1) - st))"
            using "2.hyps"(2) [OF more bT refl recN [unfolded g1_def] refl refl cap clock mono tmo
                len2 [unfolded g1_def] rc(1,2) cz [unfolded g1_def] a [unfolded g1_def] v [unfolded g1_def]] .
          then show ?thesis using kka by auto
        qed
      qed
    qed
  qed
qed

text \<open>
  With a clock that never goes back, the completions that the search has pushed when it
  returns are an initial segment of those pushed by the search without time limit, and
  they are the same unless one of the clock readings of the search was beyond the budget.
\<close>

lemma solutionsFound_prefix:
  assumes "monotoneClock now"
  shows "(\<exists>rest. solutionsFound (\<lambda>k. 0) g = solutionsFound now g @ rest)
     \<and> (searchTimedOut now g \<or> solutionsFound now g = solutionsFound (\<lambda>k. 0) g)"
proof -
  have mono: "\<forall>i j. i \<le> j \<longrightarrow> now i \<le> now j" using assms by (simp add: monotoneClock_def)
  obtain s1 k1 where runN:
    "findAllSolutionsWithTimeout now (length g) 2 (now 0) 5000 0 (g, [], 1) = Inr (g, s1, k1)"
    using findAll_frame(1) [of "length g" g] by blast
  obtain s2 j2 where runV:
    "findAllSolutionsWithTimeout (\<lambda>k. 0) (length g) 2 0 5000 0 (g, [], 1) = Inr (g, s2, j2)"
    using findAll_frame(1) [of "length g" g] by blast
  have sim: "(\<exists>rest. s2 = s1 @ rest) \<and> (s1 = s2 \<or> (1 < k1 \<and> 5000 < now (k1 - 1) - now 0))"
    using findAll_sim(1) [OF mono _ _ runN runV] by simp
  have found: "solutionsFound now g = s1" "solutionsFound (\<lambda>k. 0) g = s2"
    using runN runV by (simp_all add: solutionsFound_def)
  have "searchTimedOut now g" if "1 < k1" "5000 < now (k1 - 1) - now 0"
  proof -
    have "k1 - 1 \<in> set [1..<k1]" using that(1) by auto
    then show ?thesis using that(2) runN by (auto simp: searchTimedOut_def list_ex_iff)
  qed
  then have "searchTimedOut now g \<or> s1 = s2" using sim by blast
  then show ?thesis using sim found by simp
qed

text \<open>
  C3 does not hold of the code. \<open>findAllSolutionsWithTimeout\<close> returns as soon as a clock
  reading is beyond the budget, but nothing records that it did, and \<open>hasUniqueSolution\<close>
  still answers \<open>solutions.length === 1\<close>. The grid below has two completions (the four
  empty cells form a rectangle 1, 3 / 3, 1). The clock reads 0 six times (the start and
  the five readings up to the push of the first completion) and 6000 from then on: the
  clock never goes back, the search times out with one completion pushed, and
  \<open>hasUniqueSolution\<close> returns true. The search without time limit pushes both completions
  and returns false.
\<close>

theorem hasUniqueSolution_timeout_certifies_uniqueness:
  "searchTimedOut (\<lambda>k. if k < 6 then 0 else 6000)
     [[5,3,4,6,7,8,9,1,2],[6,7,2,1,9,5,3,4,8],[1,9,8,3,4,2,5,6,7],
      [8,5,9,7,6,0,4,2,0],[4,2,6,8,5,0,7,9,0],[7,1,3,9,2,4,8,5,6],
      [9,6,1,5,3,7,2,8,4],[2,8,7,4,1,9,6,3,5],[3,4,5,2,8,6,1,7,9]]
   \<and> solutionsFound (\<lambda>k. if k < 6 then 0 else 6000)
     [[5,3,4,6,7,8,9,1,2],[6,7,2,1,9,5,3,4,8],[1,9,8,3,4,2,5,6,7],
      [8,5,9,7,6,0,4,2,0],[4,2,6,8,5,0,7,9,0],[7,1,3,9,2,4,8,5,6],
      [9,6,1,5,3,7,2,8,4],[2,8,7,4,1,9,6,3,5],[3,4,5,2,8,6,1,7,9]]
     = [[[5,3,4,6,7,8,9,1,2],[6,7,2,1,9,5,3,4,8],[1,9,8,3,4,2,5,6,7],
      [8,5,9,7,6,1,4,2,3],[4,2,6,8,5,3,7,9,1],[7,1,3,9,2,4,8,5,6],
      [9,6,1,5,3,7,2,8,4],[2,8,7,4,1,9,6,3,5],[3,4,5,2,8,6,1,7,9]]]
   \<and> hasUniqueSolution (\<lambda>k. if k < 6 then 0 else 6000)
     [[5,3,4,6,7,8,9,1,2],[6,7,2,1,9,5,3,4,8],[1,9,8,3,4,2,5,6,7],
      [8,5,9,7,6,0,4,2,0],[4,2,6,8,5,0,7,9,0],[7,1,3,9,2,4,8,5,6],
      [9,6,1,5,3,7,2,8,4],[2,8,7,4,1,9,6,3,5],[3,4,5,2,8,6,1,7,9]] = Inr True
   \<and> solutionsFound (\<lambda>k. 0)
     [[5,3,4,6,7,8,9,1,2],[6,7,2,1,9,5,3,4,8],[1,9,8,3,4,2,5,6,7],
      [8,5,9,7,6,0,4,2,0],[4,2,6,8,5,0,7,9,0],[7,1,3,9,2,4,8,5,6],
      [9,6,1,5,3,7,2,8,4],[2,8,7,4,1,9,6,3,5],[3,4,5,2,8,6,1,7,9]]
     = [[[5,3,4,6,7,8,9,1,2],[6,7,2,1,9,5,3,4,8],[1,9,8,3,4,2,5,6,7],
      [8,5,9,7,6,1,4,2,3],[4,2,6,8,5,3,7,9,1],[7,1,3,9,2,4,8,5,6],
      [9,6,1,5,3,7,2,8,4],[2,8,7,4,1,9,6,3,5],[3,4,5,2,8,6,1,7,9]],
        [[5,3,4,6,7,8,9,1,2],[6,7,2,1,9,5,3,4,8],[1,9,8,3,4,2,5,6,7],
      [8,5,9,7,6,3,4,2,1],[4,2,6,8,5,1,7,9,3],[7,1,3,9,2,4,8,5,6],
      [9,6,1,5,3,7,2,8,4],[2,8,7,4,1,9,6,3,5],[3,4,5,2,8,6,1,7,9]]]
   \<and> hasUniqueSolution (\<lambda>k. 0)
     [[5,3,4,6,7,8,9,1,2],[6,7,2,1,9,5,3,4,8],[1,9,8,3,4,2,5,6,7],
      [8,5,9,7,6,0,4,2,0],[4,2,6,8,5,0,7,9,0],[7,1,3,9,2,4,8,5,6],
      [9,6,1,5,3,7,2,8,4],[2,8,7,4,1,9,6,3,5],[3,4,5,2,8,6,1,7,9]] = Inr False"
proof -
  have b: "searchTimedOut (\<lambda>k. if k < 6 then 0 else 6000)
     [[5,3,4,6,7,8,9,1,2],[6,7,2,1,9,5,3,4,8],[1,9,8,3,4,2,5,6,7],
      [8,5,9,7,6,0,4,2,0],[4,2,6,8,5,0,7,9,0],[7,1,3,9,2,4,8,5,6],
      [9,6,1,5,3,7,2,8,4],[2,8,7,4,1,9,6,3,5],[3,4,5,2,8,6,1,7,9]]" by code_simp
  have c: "solutionsFound (\<lambda>k. if k < 6 then 0 else 6000)
     [[5,3,4,6,7,8,9,1,2],[6,7,2,1,9,5,3,4,8],[1,9,8,3,4,2,5,6,7],
      [8,5,9,7,6,0,4,2,0],[4,2,6,8,5,0,7,9,0],[7,1,3,9,2,4,8,5,6],
      [9,6,1,5,3,7,2,8,4],[2,8,7,4,1,9,6,3,5],[3,4,5,2,8,6,1,7,9]]
     = [[[5,3,4,6,7,8,9,1,2],[6,7,2,1,9,5,3,4,8],[1,9,8,3,4,2,5,6,7],
      [8,5,9,7,6,1,4,2,3],[4,2,6,8,5,3,7,9,1],[7,1,3,9,2,4,8,5,6],
      [9,6,1,5,3,7,2,8,4],[2,8,7,4,1,9,6,3,5],[3,4,5,2,8,6,1,7,9]]]" by code_simp
  have d: "hasUniqueSolution (\<lambda>k. if k < 6 then 0 else 6000)
     [[5,3,4,6,7,8,9,1,2],[6,7,2,1,9,5,3,4,8],[1,9,8,3,4,2,5,6,7],
      [8,5,9,7,6,0,4,2,0],[4,2,6,8,5,0,7,9,0],[7,1,3,9,2,4,8,5,6],
      [9,6,1,5,3,7,2,8,4],[2,8,7,4,1,9,6,3,5],[3,4,5,2,8,6,1,7,9]] = Inr True" by code_simp
  have e: "solutionsFound (\<lambda>k. 0)
     [[5,3,4,6,7,8,9,1,2],[6,7,2,1,9,5,3,4,8],[1,9,8,3,4,2,5,6,7],
      [8,5,9,7,6,0,4,2,0],[4,2,6,8,5,0,7,9,0],[7,1,3,9,2,4,8,5,6],
      [9,6,1,5,3,7,2,8,4],[2,8,7,4,1,9,6,3,5],[3,4,5,2,8,6,1,7,9]]
     = [[[5,3,4,6,7,8,9,1,2],[6,7,2,1,9,5,3,4,8],[1,9,8,3,4,2,5,6,7],
      [8,5,9,7,6,1,4,2,3],[4,2,6,8,5,3,7,9,1],[7,1,3,9,2,4,8,5,6],
      [9,6,1,5,3,7,2,8,4],[2,8,7,4,1,9,6,3,5],[3,4,5,2,8,6,1,7,9]],
        [[5,3,4,6,7,8,9,1,2],[6,7,2,1,9,5,3,4,8],[1,9,8,3,4,2,5,6,7],
      [8,5,9,7,6,3,4,2,1],[4,2,6,8,5,1,7,9,3],[7,1,3,9,2,4,8,5,6],
      [9,6,1,5,3,7,2,8,4],[2,8,7,4,1,9,6,3,5],[3,4,5,2,8,6,1,7,9]]]" by code_simp
  have f: "hasUniqueSolution (\<lambda>k. 0)
     [[5,3,4,6,7,8,9,1,2],[6,7,2,1,9,5,3,4,8],[1,9,8,3,4,2,5,6,7],
      [8,5,9,7,6,0,4,2,0],[4,2,6,8,5,0,7,9,0],[7,1,3,9,2,4,8,5,6],
      [9,6,1,5,3,7,2,8,4],[2,8,7,4,1,9,6,3,5],[3,4,5,2,8,6,1,7,9]] = Inr False" by code_simp
  from b c d e f show ?thesis by (intro conjI)
qed

section \<open>Shuffles and band-wise permutations\<close>

lemma shuffleLoop_props:
  "i < length xs \<or> i = 0 \<Longrightarrow> shuffleLoop rnd i (xs, k) = (ys, k') \<Longrightarrow>
     set ys = set xs \<and> length ys = length xs \<and> distinct ys = distinct xs"
proof (induction i arbitrary: xs k)
  case 0
  then show ?case by simp
next
  case (Suc i)
  define j where "j = rnd k mod (Suc i + 1)"
  define zs where "zs = xs[Suc i := xs ! j, j := xs ! Suc i]"
  have i: "Suc i < length xs" using Suc.prems(1) by simp
  have "j < Suc i + 1" unfolding j_def by (rule mod_less_divisor) simp
  then have j: "j < length xs" using i by simp
  have run: "shuffleLoop rnd i (zs, Suc k) = (ys, k')"
    using Suc.prems(2) by (simp add: j_def zs_def Let_def)
  have "set ys = set zs \<and> length ys = length zs \<and> distinct ys = distinct zs"
    using Suc.IH [OF _ run] i by (simp add: zs_def)
  moreover have "set zs = set xs" unfolding zs_def using i j by (rule set_swap)
  moreover have "distinct zs = distinct xs" unfolding zs_def using i j by (rule distinct_swap)
  ultimately show ?case by (simp add: zs_def)
qed

lemma shuffleArray_props:
  "shuffleArray rnd xs k = (ys, k') \<Longrightarrow>
     set ys = set xs \<and> length ys = length xs \<and> distinct ys = distinct xs"
  unfolding shuffleArray_def by (rule shuffleLoop_props [of "length xs - 1"]) (cases xs, auto)

lemma fold_collect:
  "\<exists>ws k'. fold (\<lambda>b (acc, k). let (w, k') = F b k in (acc @ [w], k')) bs (acc, k) = (acc @ ws, k')
      \<and> length ws = length bs \<and> (\<forall>i<length bs. \<exists>k0. ws ! i = fst (F (bs ! i) k0))"
proof (induction bs arbitrary: acc k)
  case Nil
  then show ?case by simp
next
  case (Cons b bs)
  obtain w k1 where w: "F b k = (w, k1)" by (cases "F b k")
  obtain ws k' where ih:
    "fold (\<lambda>b (acc, k). let (w, k') = F b k in (acc @ [w], k')) bs (acc @ [w], k1) = ((acc @ [w]) @ ws, k')"
    "length ws = length bs" "\<forall>i<length bs. \<exists>k0. ws ! i = fst (F (bs ! i) k0)"
    using Cons.IH [of "acc @ [w]" k1] by blast
  have "fold (\<lambda>b (acc, k). let (w, k') = F b k in (acc @ [w], k')) (b # bs) (acc, k) = (acc @ (w # ws), k')"
    using w ih(1) by simp
  moreover have "length (w # ws) = length (b # bs)" using ih(2) by simp
  moreover have "\<forall>i<length (b # bs). \<exists>k0. (w # ws) ! i = fst (F ((b # bs) ! i) k0)"
  proof (intro allI impI)
    fix i assume "i < length (b # bs)"
    show "\<exists>k0. (w # ws) ! i = fst (F ((b # bs) ! i) k0)"
    proof (cases i)
      case 0
      then show ?thesis using w by (auto intro: exI [of _ k])
    next
      case (Suc i')
      then show ?thesis using ih(3) \<open>i < length (b # bs)\<close> by simp
    qed
  qed
  ultimately show ?case by blast
qed

lemma band_ranges_cover: "(\<Union>b \<in> {0..<box}. {b * box ..< b * box + box}) = {0..<box * (box::nat)}"
proof (intro set_eqI iffI)
  fix x assume "x \<in> (\<Union>b \<in> {0..<box}. {b * box ..< b * box + box})"
  then obtain b where b: "b < box" "b * box \<le> x" "x < b * box + box" by auto
  have "Suc b * box \<le> box * box" using b(1) by (simp add: Suc_leI mult_le_mono1 del: mult_Suc)
  then show "x \<in> {0..<box * box}" using b by simp
next
  fix x assume x: "x \<in> {0..<box * box}"
  then have b0: "0 < box" by (cases box) auto
  have "x div box < box" using x b0 by (simp add: less_mult_imp_div_less)
  moreover have "x div box * box \<le> x" by (simp add: div_times_less_eq_dividend)
  moreover have "x < x div box * box + box"
    using div_mult_mod_eq [of x box] mod_less_divisor [OF b0, of x] by linarith
  ultimately have "x div box \<in> {0..<box} \<and> x \<in> {x div box * box ..< x div box * box + box}"
    by simp
  then show "x \<in> (\<Union>b \<in> {0..<box}. {b * box ..< b * box + box})" by blast
qed

lemma band_ranges_disjoint:
  "b \<noteq> b' \<Longrightarrow> {b * box ..< b * box + box} \<inter> {b' * box ..< b' * box + (box::nat)} = {}"
proof -
  assume ne: "b \<noteq> b'"
  have aux: "False" if "a < a'" "a' * box \<le> x" "x < a * box + box" for a a' x :: nat
  proof -
    have "Suc a * box \<le> a' * box" using that(1) by (simp add: Suc_leI mult_le_mono1 del: mult_Suc)
    then show False using that by simp
  qed
  show ?thesis
  proof (rule ccontr)
    assume "{b * box ..< b * box + box} \<inter> {b' * box ..< b' * box + box} \<noteq> {}"
    then obtain x where "x \<in> {b * box ..< b * box + box} \<inter> {b' * box ..< b' * box + box}"
      by blast
    then have x: "b * box \<le> x" "x < b * box + box" "b' * box \<le> x" "x < b' * box + box"
      by simp_all
    from ne consider "b < b'" | "b' < b" by linarith
    then show False using aux x by cases blast+
  qed
qed

lemma generateBandWisePermutation_isPermutation:
  assumes "sqrtInt sz = Some box"
  shows "\<exists>p k'. generateBandWisePermutation rnd sz k = Inr (p, k') \<and> isPermutation sz p"
proof -
  define F where "F b k = shuffleArray rnd [b * box ..< b * box + box] k" for b k
  have sz: "box * box = sz" using assms by (rule sqrtInt_Some)
  obtain bands k1 where fold:
    "fold (\<lambda>b (acc, k). let (w, k') = F b k in (acc @ [w], k')) [0..<box] ([], k) = ([] @ bands, k1)"
    and lb: "length bands = length [0..<box]"
    and each: "\<forall>i<length [0..<box]. \<exists>k0. bands ! i = fst (F ([0..<box] ! i) k0)"
    using fold_collect [of F "[0..<box]" "[]" k] by blast
  obtain bandOrder k2 where bo: "shuffleArray rnd [0..<box] k1 = (bandOrder, k2)"
    by (cases "shuffleArray rnd [0..<box] k1")
  define p where "p = concat (map (\<lambda>b. bands ! b) bandOrder)"
  have gen: "generateBandWisePermutation rnd sz k = Inr (p, k2)"
    using assms fold bo by (simp add: generateBandWisePermutation_def F_def p_def)
  have band: "set (bands ! b) = {b * box ..< b * box + box} \<and> distinct (bands ! b)" if bb: "b < box" for b
  proof -
    obtain k0 where "bands ! b = fst (F b k0)" using each bb by auto
    moreover obtain ys k' where "F b k0 = (ys, k')" by (cases "F b k0")
    ultimately show ?thesis using shuffleArray_props [of rnd "[b * box ..< b * box + box]" k0 ys k']
      by (simp add: F_def)
  qed
  have order: "set bandOrder = {0..<box}" "distinct bandOrder"
    using shuffleArray_props [OF bo] by simp_all
  have setp: "set p = {0..<sz}"
  proof -
    have "set p = (\<Union>b \<in> {0..<box}. set (bands ! b))" by (simp add: p_def order(1))
    also have "\<dots> = (\<Union>b \<in> {0..<box}. {b * box ..< b * box + box})" using band by auto
    finally show ?thesis using band_ranges_cover [of box] sz by simp
  qed
  have distp: "distinct p"
    unfolding p_def
  proof (rule distinct_concat)
    have "inj_on (\<lambda>b. bands ! b) (set bandOrder)"
    proof (rule inj_onI)
      fix a b assume ab: "a \<in> set bandOrder" "b \<in> set bandOrder" "bands ! a = bands ! b"
      then have lt: "a < box" "b < box" using order(1) by simp_all
      then have "{a * box ..< a * box + box} = {b * box ..< b * box + box}"
        using band ab(3) by metis
      moreover have "{a * box ..< a * box + box} \<noteq> {}" using lt by auto
      ultimately show "a = b" using band_ranges_disjoint [of a b box] by auto
    qed
    then show "distinct (map (\<lambda>b. bands ! b) bandOrder)" using order(2) by (simp add: distinct_map)
    show "\<And>ys. ys \<in> set (map (\<lambda>b. bands ! b) bandOrder) \<Longrightarrow> distinct ys"
      using band order(1) by auto
    show "\<And>ys zs. ys \<in> set (map (\<lambda>b. bands ! b) bandOrder) \<Longrightarrow>
            zs \<in> set (map (\<lambda>b. bands ! b) bandOrder) \<Longrightarrow> ys \<noteq> zs \<Longrightarrow> set ys \<inter> set zs = {}"
    proof -
      fix ys zs
      assume "ys \<in> set (map (\<lambda>b. bands ! b) bandOrder)" "zs \<in> set (map (\<lambda>b. bands ! b) bandOrder)"
        "ys \<noteq> zs"
      then obtain a b where "a < box" "b < box" "ys = bands ! a" "zs = bands ! b" "a \<noteq> b"
        using order(1) by fastforce
      then show "set ys \<inter> set zs = {}" using band band_ranges_disjoint [of a b box] by simp
    qed
  qed
  have "length p = sz" using distinct_card [OF distp] setp by simp
  then have "isPermutation sz p" using distp setp by (simp add: isPermutation_def)
  with gen show ?thesis by blast
qed

section \<open>Valid moves and legal grids\<close>

lemma scanFor_None_iff:
  assumes "\<And>r c. (r, c) \<in> set ps \<Longrightarrow> r < length g" and "scanFor g v ps = Inr hit"
  shows "(hit = None) = (\<forall>(r, c) \<in> set ps. cellAt g r c \<noteq> Some v)"
proof (cases hit)
  case None
  then show ?thesis using scanFor_None [of g v ps] assms(2) by auto
next
  case (Some rc)
  obtain r c where "rc = (r, c)" by (cases rc)
  then have "(r, c) \<in> set ps \<and> cellAt g r c = Some v"
    using scanFor_Some [of g v ps r c] assms(2) Some by simp
  then show ?thesis using Some by auto
qed

lemma box_range_iff:
  assumes "0 < (b::nat)"
  shows "(r' \<in> set [r div b * b ..< r div b * b + b]) = (r' div b = r div b)"
proof
  assume "r' \<in> set [r div b * b ..< r div b * b + b]"
  then have "b * (r div b) \<le> r'" "r' < b * Suc (r div b)" by (simp_all add: mult.commute)
  then show "r' div b = r div b" by (rule div_nat_eqI)
next
  assume eq: "r' div b = r div b"
  have "r' div b * b \<le> r'" by (simp add: div_times_less_eq_dividend)
  moreover have "r' < r' div b * b + b"
    using div_mult_mod_eq [of r' b] mod_less_divisor [OF assms, of r'] by linarith
  ultimately show "r' \<in> set [r div b * b ..< r div b * b + b]" using eq by simp
qed

lemma sqrtInt_pos: "sqrtInt sz = Some b \<Longrightarrow> 0 < sz \<Longrightarrow> 0 < b"
  using sqrtInt_Some [of sz b] by (cases b) auto

lemma isValidMoveGen_iff:
  assumes sq: "sqrtInt sz = Some b" and g: "squareGrid sz g" and r: "r < sz" and c: "c < sz"
  shows "isValidMoveGen g r c num sz
           = Inr (\<forall>r'<sz. \<forall>c'<sz. related b (r, c) (r', c') \<longrightarrow> g ! r' ! c' \<noteq> num)"
proof -
  define ps where "ps = map (Pair r) [0..<sz] @ map (\<lambda>r'. (r', c)) [0..<sz]
     @ List.product [r div b * b ..< r div b * b + b] [c div b * b ..< c div b * b + b]"
  have bb: "b * b = sz" using sq by (rule sqrtInt_Some)
  have b0: "0 < b" using sqrtInt_pos [OF sq] r by simp
  have mem: "((r', c') \<in> set ps) = (r' < sz \<and> c' < sz \<and> related b (r, c) (r', c'))" for r' c'
  proof -
    have "r' < sz" if "r' div b = r div b"
    proof -
      have "r' \<in> set [r div b * b ..< r div b * b + b]" using that box_range_iff [OF b0] by simp
      then show ?thesis using box_bounds(4) [OF bb r] by simp
    qed
    moreover have "c' < sz" if "c' div b = c div b"
    proof -
      have "c' \<in> set [c div b * b ..< c div b * b + b]" using that box_range_iff [OF b0] by simp
      then show ?thesis using box_bounds(4) [OF bb c] by simp
    qed
    ultimately show ?thesis
      unfolding ps_def using r c box_range_iff [OF b0] by (auto simp: related_def)
  qed
  have rows: "r' < length g" if "(r', c') \<in> set ps" for r' c'
    using that mem g by (simp add: squareGrid_def)
  obtain hit where hit: "scanFor g num ps = Inr hit" using scanFor_Inr [of ps g num] rows by blast
  have "(hit = None) = (\<forall>(r', c') \<in> set ps. cellAt g r' c' \<noteq> Some num)"
    using scanFor_None_iff [OF rows hit] .
  also have "\<dots> = (\<forall>r'<sz. \<forall>c'<sz. related b (r, c) (r', c') \<longrightarrow> g ! r' ! c' \<noteq> num)"
    using mem cellAt_square [OF g] by fastforce
  finally show ?thesis using hit sq by (simp add: isValidMoveGen_def ps_def)
qed

lemma legal_unique:
  assumes lg: "legalComplete s" and sq: "sqrtInt (length s) = Some b"
    and r: "r < length s" and c: "c < length s" and r': "r' < length s" and c': "c' < length s"
    and rel: "related b (r, c) (r', c')" and eq: "s ! r ! c = s ! r' ! c'"
  shows "(r, c) = (r', c')"
proof -
  define n where "n = length s"
  have sqg: "squareGrid n s"
    and rows: "\<forall>rw \<in> set s. distinct rw"
    and cols: "\<forall>c \<in> set [0..<n]. distinct (map (\<lambda>r. s ! r ! c) [0..<n])"
    and boxes: "\<forall>bx \<in> set (boxesOf n). distinct (map (\<lambda>(r, c). s ! r ! c) bx)"
    using lg by (simp_all add: legalComplete_def Let_def n_def)
  have b0: "0 < b" using sqrtInt_pos [OF sq] r by (cases s) auto
  have bb: "b * b = n" using sq unfolding n_def by (rule sqrtInt_Some)
  consider (row) "r = r'" | (col) "c = c'" | (box) "r div b = r' div b" "c div b = c' div b"
    using rel by (auto simp: related_def)
  then show ?thesis
  proof cases
    case row
    have "s ! r \<in> set s" "length (s ! r) = n" using r sqg by (simp_all add: squareGrid_def n_def)
    then have "distinct (s ! r)" using rows by simp
    then have "c = c'" using eq row c c' \<open>length (s ! r) = n\<close>
      by (simp add: nth_eq_iff_index_eq n_def)
    with row show ?thesis by simp
  next
    case col
    have d: "distinct (map (\<lambda>r. s ! r ! c) [0..<n])" using cols c by (simp add: n_def)
    have "r = r'" using distinct_map_eq [OF d, of r r'] r r' eq col by (simp add: n_def)
    with col show ?thesis by simp
  next
    case box
    have d: "distinct (map (\<lambda>(r, c). s ! r ! c) (boxCells n r c))"
      using boxes boxCells_in_boxesOf [OF sq [folded n_def]] r c by (simp add: n_def)
    have self: "(r, c) \<in> set (boxCells n r c)"
      using boxCells_self [OF sq [folded n_def]] r c by (simp add: n_def)
    have "r' \<in> set [r div b * b ..< r div b * b + b]"
      using box_range_iff [OF b0, of r' r] box(1) by simp
    moreover have "c' \<in> set [c div b * b ..< c div b * b + b]"
      using box_range_iff [OF b0, of c' c] box(2) by simp
    ultimately have other: "(r', c') \<in> set (boxCells n r c)"
      using sq by (simp add: boxCells_def n_def)
    show ?thesis using distinct_map_eq [OF d self other] eq by simp
  qed
qed

section \<open>Sizes that \<open>generatePuzzle\<close> refuses\<close>

lemma sqrtInt_None_iff: "sqrtInt n = None \<longleftrightarrow> (\<forall>b. b * b \<noteq> n)"
proof
  assume none: "sqrtInt n = None"
  show "\<forall>b. b * b \<noteq> n"
  proof (intro allI notI)
    fix b assume bb: "b * b = n"
    have "b \<le> b * b" by (cases b) simp_all
    then have "b < Suc n" using bb by linarith
    then have "b \<in> set [0..<Suc n]" by (simp del: upt_Suc)
    then show False using none bb unfolding sqrtInt_def find_None_iff by blast
  qed
next
  assume "\<forall>b. b * b \<noteq> n"
  then show "sqrtInt n = None" unfolding sqrtInt_def find_None_iff by blast
qed

lemma generatePuzzle_not_square:
  "sqrtInt (PuzzleGenerationOptions.size' options) = None \<Longrightarrow> generatePuzzle env options = Inl InvalidSize"
  by (simp add: generatePuzzle_def)

text \<open>
  C4 does not hold of the code for size 6. \<open>Math.sqrt(6)\<close> is not an integer, so the guard
  of \<open>generatePuzzle\<close> throws for \<open>PuzzleSize.MINI_6X6\<close>, whatever the variant, the
  difficulty and the random choices: the error is raised before any of them is used.
\<close>

theorem generatePuzzle_size_6_InvalidSize:
  "sqrtInt 6 = None
   \<and> generatePuzzle env (options\<lparr>PuzzleGenerationOptions.size' := 6\<rparr>) = Inl InvalidSize"
proof -
  have "sqrtInt 6 = None" by code_simp
  then show ?thesis by (simp add: generatePuzzle_def)
qed

section \<open>The technique analysis returns\<close>

lemma filter_length_drop_one:
  "distinct xs \<Longrightarrow> a \<in> set xs \<Longrightarrow> P a \<Longrightarrow> \<not> Q a
     \<Longrightarrow> (\<And>x. x \<in> set xs \<Longrightarrow> x \<noteq> a \<Longrightarrow> P x = Q x)
     \<Longrightarrow> length (filter Q xs) < length (filter P xs)"
proof (induction xs)
  case Nil
  then show ?case by simp
next
  case (Cons x xs)
  show ?case
  proof (cases "x = a")
    case True
    then have "a \<notin> set xs" using Cons.prems(1) by simp
    then have "filter P xs = filter Q xs" using Cons.prems(5) by (intro filter_cong) auto
    then show ?thesis using True Cons.prems(3,4) by simp
  next
    case False
    then have "P x = Q x" using Cons.prems(5) by simp
    moreover have "length (filter Q xs) < length (filter P xs)"
      using Cons.IH Cons.prems False by simp
    ultimately show ?thesis by simp
  qed
qed

lemma countEmpty_fill:
  assumes "cellAt g r c = Some 0" and "r < sz" and "c < sz" and "v \<noteq> 0"
  shows "countEmpty sz (setCell g r c v) < countEmpty sz g"
  unfolding countEmpty_def
proof (rule filter_length_drop_one [where a = "(r, c)"])
  show "distinct (List.product [0..<sz] [0..<sz])" by (simp add: distinct_product)
  show "(r, c) \<in> set (List.product [0..<sz] [0..<sz])" using assms by simp
  show "case (r, c) of (r, c) \<Rightarrow> cellAt g r c = Some 0" using assms by simp
  have "r < length g" "c < length (g ! r)" using assms(1) by (simp_all add: cellAt_def split: if_splits)
  then show "\<not> (case (r, c) of (r', c') \<Rightarrow> cellAt (setCell g r c v) r' c' = Some 0)"
    using assms(4) by (simp add: cellAt_def setCell_def)
  fix x :: "nat \<times> nat" assume "x \<noteq> (r, c)"
  then show "(case x of (r, c) \<Rightarrow> cellAt g r c = Some 0)
           = (case x of (r', c') \<Rightarrow> cellAt (setCell g r c v) r' c' = Some 0)"
    by (cases x) (simp add: cellAt_setCell_other)
qed

lemma advances_refl: "advances sz st st"
  by (simp add: advances_def)

lemma advances_trans: "advances sz a b \<Longrightarrow> advances sz b c \<Longrightarrow> advances sz a c"
  unfolding advances_def by auto

lemma advances_fill:
  "cellAt g r c = Some 0 \<Longrightarrow> r < sz \<Longrightarrow> c < sz \<Longrightarrow> v \<noteq> 0
     \<Longrightarrow> advances sz (g, p) (setCell g r c v, True)"
  by (simp add: advances_def countEmpty_fill)

lemma advances_fold:
  assumes "\<And>x st. x \<in> set xs \<Longrightarrow> length (fst st) = n \<Longrightarrow> advances sz st (f x st)"
    and "length (fst st) = n"
  shows "advances sz st (fold f xs st)"
  using assms
proof (induction xs arbitrary: st)
  case Nil
  then show ?case by (simp add: advances_refl)
next
  case (Cons x xs)
  have one: "advances sz st (f x st)" using Cons.prems by simp
  then have len: "length (fst (f x st)) = n" using Cons.prems(2) by (simp add: advances_def)
  have "advances sz (f x st) (fold f xs (f x st))"
    using Cons.IH [OF _ len] Cons.prems(1) by simp
  then show ?case using one by (auto intro: advances_trans)
qed

lemma advances_flag:
  "advances sz (g, False) (g', p') \<Longrightarrow> advances sz (g, p) (g', p' \<or> p)"
  unfolding advances_def by auto

lemma candidate_nonzero: "v \<in> set (map int [1..<Suc sz]) \<Longrightarrow> v \<noteq> 0"
  by auto

lemma applyNakedSinglesGen_advances:
  "advances (length g) (g, False) (applyNakedSinglesGen g)"
  unfolding applyNakedSinglesGen_def Let_def
proof (rule advances_fold [where n = "length g"])
  fix x :: "nat \<times> nat" and st :: "grid \<times> bool"
  assume x: "x \<in> set (List.product [0..<length g] [0..<length g])"
  obtain r c where rc: "x = (r, c)" by (cases x)
  obtain h p where st: "st = (h, p)" by (cases st)
  have r: "r < length g" and c: "c < length g" using x rc by simp_all
  have "advances (length g) (h, p) (setCell h r c (getCandidatesGen h r c (length g) ! 0), True)"
    if z: "cellAt h r c = Some 0" and one: "length (getCandidatesGen h r c (length g)) = 1"
  proof -
    have "getCandidatesGen h r c (length g) ! 0 \<in> set (getCandidatesGen h r c (length g))"
      using one by (intro nth_mem) simp
    then have "getCandidatesGen h r c (length g) ! 0 \<in> set (map int [1..<Suc (length g)])"
      unfolding getCandidatesGen_def by (simp del: upt_Suc)
    then have "getCandidatesGen h r c (length g) ! 0 \<noteq> 0" by (rule candidate_nonzero)
    then show ?thesis using z r c by (intro advances_fill)
  qed
  then show "advances (length g) st
          ((case x of (r, c) \<Rightarrow> \<lambda>(ga, progress).
               if cellAt ga r c = Some 0
               then if length (getCandidatesGen ga r c (length g)) = 1
                    then (setCell ga r c (getCandidatesGen ga r c (length g) ! 0), True)
                    else (ga, progress)
               else (ga, progress)) st)"
    by (simp add: rc st advances_refl)
qed simp

lemma filter_single:
  assumes "length (filter P xs) = 1"
  shows "filter P xs ! 0 \<in> set xs \<and> P (filter P xs ! 0)"
proof -
  have "filter P xs ! 0 \<in> set (filter P xs)" using assms by (intro nth_mem) simp
  then show ?thesis by simp
qed

lemma findHiddenSinglesInRowGen_advances:
  assumes "r < sz"
  shows "advances sz (g, False) (findHiddenSinglesInRowGen g r sz)"
  unfolding findHiddenSinglesInRowGen_def Let_def
proof (rule advances_fold [where n = "length g"])
  fix num :: int and st :: "grid \<times> bool"
  assume num: "num \<in> set (map int [1..<Suc sz])"
  obtain h p where st: "st = (h, p)" by (cases st)
  define cols where "cols = filter (\<lambda>c. cellAt h r c = Some 0 \<and> isValidMoveGen h r c num sz = Inr True) [0..<sz]"
  have "advances sz (h, p) (setCell h r (cols ! 0) num, True)" if one: "length cols = 1"
  proof -
    have "cols ! 0 \<in> set [0..<sz] \<and> cellAt h r (cols ! 0) = Some 0"
      using filter_single [OF one [unfolded cols_def]] unfolding cols_def by blast
    moreover have "num \<noteq> 0" using num by (rule candidate_nonzero)
    ultimately show ?thesis using assms by (intro advances_fill) simp_all
  qed
  then show "advances sz st
          ((\<lambda>(ga, progress).
               if length (filter (\<lambda>c. cellAt ga r c = Some 0 \<and> isValidMoveGen ga r c num sz = Inr True) [0..<sz]) = 1
               then (setCell ga r (filter (\<lambda>c. cellAt ga r c = Some 0 \<and> isValidMoveGen ga r c num sz = Inr True) [0..<sz] ! 0) num, True)
               else (ga, progress)) st)"
    by (simp add: st advances_refl cols_def)
qed simp

lemma findHiddenSinglesInColumnGen_advances:
  assumes "c < sz"
  shows "advances sz (g, False) (findHiddenSinglesInColumnGen g c sz)"
  unfolding findHiddenSinglesInColumnGen_def Let_def
proof (rule advances_fold [where n = "length g"])
  fix num :: int and st :: "grid \<times> bool"
  assume num: "num \<in> set (map int [1..<Suc sz])"
  obtain h p where st: "st = (h, p)" by (cases st)
  define rows where "rows = filter (\<lambda>r. cellAt h r c = Some 0 \<and> isValidMoveGen h r c num sz = Inr True) [0..<sz]"
  have "advances sz (h, p) (setCell h (rows ! 0) c num, True)" if one: "length rows = 1"
  proof -
    have "rows ! 0 \<in> set [0..<sz] \<and> cellAt h (rows ! 0) c = Some 0"
      using filter_single [OF one [unfolded rows_def]] unfolding rows_def by blast
    moreover have "num \<noteq> 0" using num by (rule candidate_nonzero)
    ultimately show ?thesis using assms by (intro advances_fill) simp_all
  qed
  then show "advances sz st
          ((\<lambda>(ga, progress).
               if length (filter (\<lambda>r. cellAt ga r c = Some 0 \<and> isValidMoveGen ga r c num sz = Inr True) [0..<sz]) = 1
               then (setCell ga (filter (\<lambda>r. cellAt ga r c = Some 0 \<and> isValidMoveGen ga r c num sz = Inr True) [0..<sz] ! 0) c num, True)
               else (ga, progress)) st)"
    by (simp add: st advances_refl rows_def)
qed simp

lemma findHiddenSinglesInBoxGen_advances:
  assumes "startRow + boxSize \<le> length g" and "startCol + boxSize \<le> length g"
  shows "advances (length g) (g, False) (findHiddenSinglesInBoxGen g startRow startCol boxSize)"
  unfolding findHiddenSinglesInBoxGen_def Let_def
proof (rule advances_fold [where n = "length g"])
  fix num :: int and st :: "grid \<times> bool"
  assume num: "num \<in> set (map int [1..<Suc (length g)])"
  obtain h p where st: "st = (h, p)" by (cases st)
  define cells where "cells = filter (\<lambda>(r, c). cellAt h r c = Some 0 \<and> isValidMoveGen h r c num (length g) = Inr True)
                      (List.product [startRow ..< startRow + boxSize] [startCol ..< startCol + boxSize])"
  have "advances (length g) (h, p) (case cells ! 0 of (r, c) \<Rightarrow> (setCell h r c num, True))"
    if one: "length cells = 1"
  proof -
    obtain r c where rc: "cells ! 0 = (r, c)" by (cases "cells ! 0")
    have "(r, c) \<in> set (List.product [startRow ..< startRow + boxSize] [startCol ..< startCol + boxSize])
            \<and> cellAt h r c = Some 0"
      using filter_single [OF one [unfolded cells_def]] rc unfolding cells_def by auto
    moreover have "num \<noteq> 0" using num by (rule candidate_nonzero)
    ultimately have "advances (length g) (h, p) (setCell h r c num, True)"
      using assms by (intro advances_fill) simp_all
    then show ?thesis by (simp add: rc)
  qed
  then show "advances (length g) st
          ((\<lambda>(ga, progress).
               if length (filter (\<lambda>(r, c). cellAt ga r c = Some 0 \<and> isValidMoveGen ga r c num (length g) = Inr True)
                      (List.product [startRow ..< startRow + boxSize] [startCol ..< startCol + boxSize])) = 1
               then (case filter (\<lambda>(r, c). cellAt ga r c = Some 0 \<and> isValidMoveGen ga r c num (length g) = Inr True)
                      (List.product [startRow ..< startRow + boxSize] [startCol ..< startCol + boxSize]) ! 0 of
                       (r, c) \<Rightarrow> (setCell ga r c num, True))
               else (ga, progress)) st)"
    by (simp add: st advances_refl cells_def)
qed simp

lemma box_start_bound:
  assumes "i < (b::nat)"
  shows "i * b + b \<le> b * b"
proof -
  have "Suc i * b \<le> b * b" using assms by (intro mult_le_mono1) simp
  then show ?thesis by simp
qed

lemma applyHiddenSinglesGen_advances:
  assumes sq: "boxSize * boxSize = length g"
  shows "advances (length g) (g, False) (applyHiddenSinglesGen g boxSize)"
proof -
  define n where "n = length g"
  define lines where "lines = (\<lambda>i (g, progress).
                        case findHiddenSinglesInRowGen g i n of (g1, p1) \<Rightarrow>
                        case findHiddenSinglesInColumnGen g1 i n of (g2, p2) \<Rightarrow>
                          (g2, p2 \<or> (p1 \<or> progress)))"
  define boxes where "boxes = (\<lambda>(boxRow, boxCol) (g, progress).
                 case findHiddenSinglesInBoxGen g boxRow boxCol boxSize of (g1, p1) \<Rightarrow> (g1, p1 \<or> progress))"
  define st1 where "st1 = fold lines [0..<n] (g, False)"
  have eq: "applyHiddenSinglesGen g boxSize
      = fold boxes (List.product (map (\<lambda>i. i * boxSize) [0..<boxSize]) (map (\<lambda>i. i * boxSize) [0..<boxSize])) st1"
    unfolding applyHiddenSinglesGen_def Let_def st1_def lines_def boxes_def n_def ..
  have one: "advances n (g, False) st1"
    unfolding st1_def
  proof (rule advances_fold [where n = n])
    fix i :: nat and st :: "grid \<times> bool"
    assume i: "i \<in> set [0..<n]" and len: "length (fst st) = n"
    obtain h p where st: "st = (h, p)" by (cases st)
    obtain g1 p1 where rw: "findHiddenSinglesInRowGen h i n = (g1, p1)"
      by (cases "findHiddenSinglesInRowGen h i n")
    obtain g2 p2 where cl: "findHiddenSinglesInColumnGen g1 i n = (g2, p2)"
      by (cases "findHiddenSinglesInColumnGen g1 i n")
    have a: "advances n (h, p) (g1, p1 \<or> p)"
      using findHiddenSinglesInRowGen_advances [of i n h] i rw by (intro advances_flag) simp
    have b: "advances n (g1, p1 \<or> p) (g2, p2 \<or> (p1 \<or> p))"
      using findHiddenSinglesInColumnGen_advances [of i n g1] i cl by (intro advances_flag) simp
    show "advances n st (lines i st)"
      using advances_trans [OF a b] by (simp add: lines_def st rw cl)
  qed (simp add: n_def)
  then have len1: "length (fst st1) = n" by (simp add: advances_def n_def)
  have two: "advances n st1 (fold boxes (List.product (map (\<lambda>i. i * boxSize) [0..<boxSize])
                                           (map (\<lambda>i. i * boxSize) [0..<boxSize])) st1)"
  proof (rule advances_fold [where n = n])
    fix x :: "nat \<times> nat" and st :: "grid \<times> bool"
    assume x: "x \<in> set (List.product (map (\<lambda>i. i * boxSize) [0..<boxSize]) (map (\<lambda>i. i * boxSize) [0..<boxSize]))"
      and len: "length (fst st) = n"
    obtain sr sc where rc: "x = (sr, sc)" by (cases x)
    obtain h p where st: "st = (h, p)" by (cases st)
    have h: "length h = n" using len st by simp
    obtain i j where ij: "i < boxSize" "j < boxSize" "sr = i * boxSize" "sc = j * boxSize"
      using x rc by auto
    have bounds: "sr + boxSize \<le> length h" "sc + boxSize \<le> length h"
      using box_start_bound [OF ij(1)] box_start_bound [OF ij(2)] ij(3,4) sq h by (simp_all add: n_def)
    obtain g1 p1 where bx: "findHiddenSinglesInBoxGen h sr sc boxSize = (g1, p1)"
      by (cases "findHiddenSinglesInBoxGen h sr sc boxSize")
    have "advances n (h, p) (g1, p1 \<or> p)"
      using findHiddenSinglesInBoxGen_advances [OF bounds] bx h by (intro advances_flag) simp
    then show "advances n st (boxes x st)" by (simp add: boxes_def rc st bx)
  qed (rule len1)
  show ?thesis using advances_trans [OF one two] eq by (simp add: n_def)
qed

lemma analyzeLoop_returns:
  "boxSize * boxSize = length g \<Longrightarrow> countEmpty (length g) g < fuel
     \<Longrightarrow> \<exists>ts'. analyzeLoop boxSize fuel (g, ts) = Inr ts'"
proof (induction fuel arbitrary: g ts)
  case 0
  then show ?case by simp
next
  case (Suc fuel)
  obtain g1 p1 where nk: "applyNakedSinglesGen g = (g1, p1)" by (cases "applyNakedSinglesGen g")
  have a1: "advances (length g) (g, False) (g1, p1)"
    using applyNakedSinglesGen_advances [of g] nk by simp
  then have len1: "length g1 = length g" by (simp add: advances_def)
  have le1: "countEmpty (length g) g1 \<le> countEmpty (length g) g" using a1 by (auto simp: advances_def)
  obtain g2 p2 where hd: "applyHiddenSinglesGen g1 boxSize = (g2, p2)"
    by (cases "applyHiddenSinglesGen g1 boxSize")
  have a2: "advances (length g) (g1, False) (g2, p2)"
    using applyHiddenSinglesGen_advances [of boxSize g1] hd Suc.prems(1) len1 by simp
  then have len2: "length g2 = length g" using len1 by (simp add: advances_def)
  show ?case
  proof (cases "isGridComplete g")
    case True
    then show ?thesis by simp
  next
    case False
    show ?thesis
    proof (cases p1)
      case True
      then have "countEmpty (length g) g1 < countEmpty (length g) g" using a1 by (auto simp: advances_def)
      then have "countEmpty (length g1) g1 < fuel" using Suc.prems(2) len1 by simp
      then obtain ts' where "analyzeLoop boxSize fuel (g1, pushTechnique NAKED_SINGLES ts) = Inr ts'"
        using Suc.IH [of g1] Suc.prems(1) len1 by auto
      then show ?thesis using False True nk by simp
    next
      case p1: False
      show ?thesis
      proof (cases p2)
        case True
        then have "countEmpty (length g) g2 < countEmpty (length g) g1" using a2 by (auto simp: advances_def)
        then have "countEmpty (length g2) g2 < fuel" using Suc.prems(2) le1 len2 by simp
        then obtain ts' where "analyzeLoop boxSize fuel (g2, pushTechnique HIDDEN_SINGLES ts) = Inr ts'"
          using Suc.IH [of g2] Suc.prems(1) len2 by auto
        then show ?thesis using False p1 True nk hd by simp
      next
        case p2: False
        then show ?thesis using False p1 nk hd by simp
      qed
    qed
  qed
qed

lemma countEmpty_le: "countEmpty sz g \<le> sz * sz"
proof -
  have "countEmpty sz g \<le> length (List.product [0..<sz] [0..<sz])"
    unfolding countEmpty_def by (rule length_filter_le)
  then show ?thesis by simp
qed

lemma analyzeSolvingTechniques_returns:
  assumes "sqrtInt (length puzzle) = Some b"
  shows "\<exists>ts. analyzeSolvingTechniques puzzle sol = Inr ts"
proof -
  have sq: "b * b = length puzzle" using sqrtInt_Some [OF assms] by simp
  have "countEmpty (length puzzle) puzzle < Suc (length puzzle * length puzzle)"
    using countEmpty_le [of "length puzzle" puzzle] by simp
  then obtain ts where "analyzeLoop b (Suc (length puzzle * length puzzle)) (puzzle, []) = Inr ts"
    using analyzeLoop_returns [OF sq] by blast
  then show ?thesis using assms by (simp add: analyzeSolvingTechniques_def del: analyzeLoop.simps)
qed

section \<open>A generated puzzle with two completions\<close>

text \<open>
  The run of \<open>generatePuzzle\<close> for a 9 x 9 beginner puzzle when every draw of
  \<open>Math.random()\<close> is 0, stage by stage: the two band-wise permutations, the complete
  solution, its permutation, the removal of 31 clues, the inverse permutation and the
  analysis of the techniques.
\<close>

lemma run_rowPerm: "generateBandWisePermutation (\<lambda>k. 0) 9 0 = Inr ([4,5,3,7,8,6,1,2,0], 8)"
  by code_simp

lemma run_colPerm: "generateBandWisePermutation (\<lambda>k. 0) 9 8 = Inr ([4,5,3,7,8,6,1,2,0], 16)"
  by code_simp

lemma run_solution:
  "generateCompleteSolution (\<lambda>k. 0) 9 16
     = Inr ([[2,3,4,5,6,7,8,9,1],
      [5,6,7,8,9,1,2,3,4],
      [8,9,1,2,3,4,5,6,7],
      [3,2,5,4,7,6,9,1,8],
      [4,7,6,9,1,8,3,2,5],
      [9,1,8,3,2,5,4,7,6],
      [6,4,2,7,5,3,1,8,9],
      [7,5,3,1,8,9,6,4,2],
      [1,8,9,6,4,2,7,5,3]], 3144)"
  by code_simp

lemma run_permuted:
  "applyPermutation [[2,3,4,5,6,7,8,9,1],
      [5,6,7,8,9,1,2,3,4],
      [8,9,1,2,3,4,5,6,7],
      [3,2,5,4,7,6,9,1,8],
      [4,7,6,9,1,8,3,2,5],
      [9,1,8,3,2,5,4,7,6],
      [6,4,2,7,5,3,1,8,9],
      [7,5,3,1,8,9,6,4,2],
      [1,8,9,6,4,2,7,5,3]] [4,5,3,7,8,6,1,2,0] [4,5,3,7,8,6,1,2,0]
     = Some [[3,7,5,9,1,8,2,6,4],
      [9,1,8,2,6,4,3,7,5],
      [2,6,4,3,7,5,9,1,8],
      [7,5,6,1,8,9,4,2,3],
      [1,8,9,4,2,3,7,5,6],
      [4,2,3,7,5,6,1,8,9],
      [6,4,7,8,9,1,5,3,2],
      [8,9,1,5,3,2,6,4,7],
      [5,3,2,6,4,7,8,9,1]]"
  by code_simp

lemma run_removed:
  "createPuzzleFromSolution (\<lambda>k. 0)
      [[3,7,5,9,1,8,2,6,4],
      [9,1,8,2,6,4,3,7,5],
      [2,6,4,3,7,5,9,1,8],
      [7,5,6,1,8,9,4,2,3],
      [1,8,9,4,2,3,7,5,6],
      [4,2,3,7,5,6,1,8,9],
      [6,4,7,8,9,1,5,3,2],
      [8,9,1,5,3,2,6,4,7],
      [5,3,2,6,4,7,8,9,1]] BEGINNER 9 3144
     = Inr ([[0,7,5,0,1,8,0,6,4],
      [9,1,8,2,6,4,3,7,5],
      [0,0,0,3,0,0,9,0,0],
      [0,5,6,0,8,9,0,2,3],
      [1,8,9,4,2,3,7,5,6],
      [4,0,0,7,0,0,1,0,0],
      [0,4,7,0,9,1,0,3,2],
      [8,9,1,5,3,2,6,4,7],
      [0,0,0,0,0,0,0,0,0]], 3225)"
  by code_simp

lemma run_inverse: "invertPermutation [4,5,3,7,8,6,1,2,0] = Some [8,6,7,2,0,1,5,3,4]"
  by code_simp

lemma run_initialState:
  "applyPermutation [[0,7,5,0,1,8,0,6,4],
      [9,1,8,2,6,4,3,7,5],
      [0,0,0,3,0,0,9,0,0],
      [0,5,6,0,8,9,0,2,3],
      [1,8,9,4,2,3,7,5,6],
      [4,0,0,7,0,0,1,0,0],
      [0,4,7,0,9,1,0,3,2],
      [8,9,1,5,3,2,6,4,7],
      [0,0,0,0,0,0,0,0,0]] [8,6,7,2,0,1,5,3,4] [8,6,7,2,0,1,5,3,4]
     = Some [[2,3,4,5,6,7,8,9,1],
      [0,0,7,0,0,1,0,0,4],
      [8,9,0,2,3,0,5,6,0],
      [3,2,5,4,7,6,9,1,8],
      [0,0,0,0,0,0,0,0,0],
      [9,1,0,3,2,0,4,7,0],
      [6,4,2,7,5,3,1,8,9],
      [0,0,3,0,0,9,0,0,0],
      [1,8,0,6,4,0,7,5,0]]"
  by code_simp

lemma run_unpermuted:
  "applyPermutation [[3,7,5,9,1,8,2,6,4],
      [9,1,8,2,6,4,3,7,5],
      [2,6,4,3,7,5,9,1,8],
      [7,5,6,1,8,9,4,2,3],
      [1,8,9,4,2,3,7,5,6],
      [4,2,3,7,5,6,1,8,9],
      [6,4,7,8,9,1,5,3,2],
      [8,9,1,5,3,2,6,4,7],
      [5,3,2,6,4,7,8,9,1]] [8,6,7,2,0,1,5,3,4] [8,6,7,2,0,1,5,3,4]
     = Some [[2,3,4,5,6,7,8,9,1],
      [5,6,7,8,9,1,2,3,4],
      [8,9,1,2,3,4,5,6,7],
      [3,2,5,4,7,6,9,1,8],
      [4,7,6,9,1,8,3,2,5],
      [9,1,8,3,2,5,4,7,6],
      [6,4,2,7,5,3,1,8,9],
      [7,5,3,1,8,9,6,4,2],
      [1,8,9,6,4,2,7,5,3]]"
  by code_simp

lemma run_not_unique:
  "validateUniqueSolution
      [[2,3,4,5,6,7,8,9,1],
      [0,0,7,0,0,1,0,0,4],
      [8,9,0,2,3,0,5,6,0],
      [3,2,5,4,7,6,9,1,8],
      [0,0,0,0,0,0,0,0,0],
      [9,1,0,3,2,0,4,7,0],
      [6,4,2,7,5,3,1,8,9],
      [0,0,3,0,0,9,0,0,0],
      [1,8,0,6,4,0,7,5,0]] = Inr False"
  by code_simp

text \<open>
  C2 does not hold of the code. The permissive removal of \<open>createEasyPuzzle\<close> deletes
  cells until the target count is reached and checks nothing, so the grid it leaves may
  have several completions. When every draw of \<open>Math.random()\<close> is 0, the 9 x 9 beginner
  puzzle that \<open>generatePuzzle\<close> returns has 50 clues and two completions, which differ in
  rows 4 and 5 (columns 2, 5 and 8 hold 6, 8, 5 or 8, 5, 6), and
  \<open>validateUniqueSolution\<close> on its initial state returns false.
\<close>

theorem generatePuzzle_not_unique:
  "\<exists>pz. generatePuzzle \<lparr>random = (\<lambda>k. 0), puzzleId = pid, today = d\<rparr>
            \<lparr>PuzzleGenerationOptions.variant = v, PuzzleGenerationOptions.difficulty = BEGINNER,
             PuzzleGenerationOptions.size' = 9, seed = sd, PuzzleGenerationOptions.constraints = cs\<rparr> = Inr pz
     \<and> initialState pz
         = [[2,3,4,5,6,7,8,9,1],
      [0,0,7,0,0,1,0,0,4],
      [8,9,0,2,3,0,5,6,0],
      [3,2,5,4,7,6,9,1,8],
      [0,0,0,0,0,0,0,0,0],
      [9,1,0,3,2,0,4,7,0],
      [6,4,2,7,5,3,1,8,9],
      [0,0,3,0,0,9,0,0,0],
      [1,8,0,6,4,0,7,5,0]]
     \<and> solution pz
         = [[2,3,4,5,6,7,8,9,1],
      [5,6,7,8,9,1,2,3,4],
      [8,9,1,2,3,4,5,6,7],
      [3,2,5,4,7,6,9,1,8],
      [4,7,6,9,1,8,3,2,5],
      [9,1,8,3,2,5,4,7,6],
      [6,4,2,7,5,3,1,8,9],
      [7,5,3,1,8,9,6,4,2],
      [1,8,9,6,4,2,7,5,3]]
     \<and> validateUniqueSolution (initialState pz) = Inr False"
proof -
  have sq: "sqrtInt 9 = Some 3" by code_simp
  have "sqrtInt (length [[2,3,4,5,6,7,8,9,1],
      [0,0,7,0,0,1,0,0,4],
      [8,9,0,2,3,0,5,6,0],
      [3,2,5,4,7,6,9,1,8],
      [0,0,0,0,0,0,0,0,0],
      [9,1,0,3,2,0,4,7,0],
      [6,4,2,7,5,3,1,8,9],
      [0,0,3,0,0,9,0,0,0],
      [1,8,0,6,4,0,7,5,0]]) = Some 3" by code_simp
  then obtain ts where ts: "analyzeSolvingTechniques
      [[2,3,4,5,6,7,8,9,1],
      [0,0,7,0,0,1,0,0,4],
      [8,9,0,2,3,0,5,6,0],
      [3,2,5,4,7,6,9,1,8],
      [0,0,0,0,0,0,0,0,0],
      [9,1,0,3,2,0,4,7,0],
      [6,4,2,7,5,3,1,8,9],
      [0,0,3,0,0,9,0,0,0],
      [1,8,0,6,4,0,7,5,0]]
      [[2,3,4,5,6,7,8,9,1],
      [5,6,7,8,9,1,2,3,4],
      [8,9,1,2,3,4,5,6,7],
      [3,2,5,4,7,6,9,1,8],
      [4,7,6,9,1,8,3,2,5],
      [9,1,8,3,2,5,4,7,6],
      [6,4,2,7,5,3,1,8,9],
      [7,5,3,1,8,9,6,4,2],
      [1,8,9,6,4,2,7,5,3]] = Inr ts"
    using analyzeSolvingTechniques_returns by blast
  show ?thesis
    unfolding generatePuzzle_def
    by (simp add: sq run_rowPerm run_colPerm run_solution run_permuted run_removed run_inverse
          run_initialState run_unpermuted ts run_not_unique Let_def del: One_nat_def)
qed

section \<open>Grids cleared from a solution\<close>

lemma clearedFrom_nth:
  "clearedFrom s g = (length g = length s
     \<and> (\<forall>r<length s. length (g ! r) = length (s ! r)
            \<and> (\<forall>c<length (s ! r). g ! r ! c = 0 \<or> g ! r ! c = s ! r ! c)))"
  unfolding clearedFrom_def list_all2_conv_all_nth by auto

lemma clearedFrom_refl: "clearedFrom g g"
  by (simp add: clearedFrom_nth)

lemma squareGrid_nth: "squareGrid n g = (length g = n \<and> (\<forall>r<n. length (g ! r) = n))"
proof -
  have "(\<forall>rw \<in> set g. length rw = n) = (\<forall>r<length g. length (g ! r) = n)"
    by (simp add: all_set_conv_all_nth)
  then show ?thesis unfolding squareGrid_def by auto
qed

lemma clearedFrom_square: "clearedFrom s g \<Longrightarrow> squareGrid n s = squareGrid n g"
  unfolding clearedFrom_nth squareGrid_nth by auto

lemma setCell_beyond: "\<not> r < length g \<Longrightarrow> setCell g r c v = g"
  by (simp add: setCell_def not_less list_update_beyond)

lemma length_nth_setCell: "length (setCell g r c v ! r') = length (g ! r')"
proof (cases "r < length g")
  case True
  then show ?thesis by (cases "r' = r") (simp_all add: setCell_def)
next
  case False
  then show ?thesis by (simp add: setCell_beyond)
qed

lemma nth_setCell:
  "setCell g r c v ! r' ! c'
     = (if r' = r \<and> c' = c \<and> r < length g \<and> c < length (g ! r) then v else g ! r' ! c')"
proof (cases "r < length g")
  case True
  show ?thesis
  proof (cases "c < length (g ! r)")
    case c: True
    show ?thesis using True c by (cases "r' = r"; cases "c' = c") (simp_all add: setCell_def)
  next
    case c: False
    then have "(g ! r)[c := v] = g ! r" by (simp add: not_less list_update_beyond)
    then show ?thesis using True c by (simp add: setCell_def)
  qed
next
  case False
  then show ?thesis by (simp add: setCell_beyond)
qed

lemma squareGrid_setCell: "squareGrid n g \<Longrightarrow> squareGrid n (setCell g r c v)"
  by (simp add: squareGrid_nth length_nth_setCell)

lemma clearedFrom_clear: "clearedFrom s g \<Longrightarrow> clearedFrom s (setCell g r c 0)"
  unfolding clearedFrom_nth by (simp add: length_nth_setCell nth_setCell)

lemma clearedFrom_fill:
  "clearedFrom s g \<Longrightarrow> clearedFrom s (setCell g r c (s ! r ! c))"
  unfolding clearedFrom_nth by (simp add: length_nth_setCell nth_setCell)

lemma related_sym: "related b p q = related b q p"
  unfolding related_def by auto

lemma legal_range:
  assumes "legalComplete s" and "r < length s" and "c < length s"
  shows "1 \<le> s ! r ! c \<and> s ! r ! c \<le> int (length s)"
proof -
  have sqg: "squareGrid (length s) s"
    and vals: "\<forall>rw \<in> set s. \<forall>v \<in> set rw. 1 \<le> v \<and> v \<le> int (length s)"
    using assms(1) by (simp_all add: legalComplete_def Let_def)
  have "s ! r \<in> set s" using assms(2) by simp
  moreover have "length (s ! r) = length s" using sqg assms(2) by (simp add: squareGrid_nth)
  then have "s ! r ! c \<in> set (s ! r)" using assms(3) by simp
  ultimately show ?thesis using vals by blast
qed

end
